theory Spec2Isabelle
  imports Complex_Main "HOL-Library.Product_Lexorder" "HOL-Library.List_Lexorder"
begin

section \<open>Data model\<close>

text \<open>
  A graph is a Python dict from a node to the list of its (neighbour, weight) pairs.
  The dict is modelled as an association list in insertion order (\<open>adj.items()\<close>,
  \<open>adj.keys()\<close>); \<open>adj[u]\<close> is \<open>map_of adj u\<close> and raises \<open>KeyError\<close> where that is
  \<open>None\<close>; \<open>adj.get(u, [])\<close> is \<open>adj_get adj u\<close>. Edge weights are Python integers
  (the generator draws them with \<open>random.randint\<close>, the fixtures write integer
  literals), so they are \<open>int\<close>; the conversion \<open>float(cost)\<close> of a result is not
  modelled. Nodes are any type with a linear order (integers, or coordinate pairs
  under the lexicographic order Python gives tuples).
\<close>

type_synonym 'a adjacency = "('a \<times> ('a \<times> int) list) list"

datatype error = KeyError | TypeError | ValueError | NameError | RecursionError

text \<open>A cost is a number or \<open>float("inf")\<close>.\<close>

datatype cost = Cost int | Infinity

text \<open>Every search returns \<open>(path, cost)\<close>, the path being a list or \<open>None\<close>.\<close>

type_synonym 'a result = "'a list option \<times> cost"

fun cost_add :: "cost \<Rightarrow> int \<Rightarrow> cost" where
  "cost_add (Cost c) w = Cost (c + w)"
| "cost_add Infinity w = Infinity"

fun cost_less :: "cost \<Rightarrow> cost \<Rightarrow> bool" where
  "cost_less (Cost a) (Cost b) = (a < b)"
| "cost_less (Cost a) Infinity = True"
| "cost_less Infinity c = False"

definition adj_get :: "('a \<times> 'b list) list \<Rightarrow> 'a \<Rightarrow> 'b list" where
  "adj_get adj u = (case map_of adj u of None \<Rightarrow> [] | Some edges \<Rightarrow> edges)"

text \<open>
  \<open>heapq\<close> keeps a binary heap in a list; all a caller observes of it is that
  \<open>heappop\<close> removes and returns the least entry under Python's tuple order. The
  heap is therefore a list of entries, \<open>heappush\<close> adds one and \<open>heappop\<close> takes
  \<open>min_list\<close> out.
\<close>

definition heappush :: "'e list \<Rightarrow> 'e \<Rightarrow> 'e list" where
  "heappush pq e = e # pq"

definition heappop :: "'e::linorder list \<Rightarrow> 'e \<times> 'e list" where
  "heappop pq = (min_list pq, remove1 (min_list pq) pq)"

section \<open>algorithms.py\<close>

subsection \<open>Uninformed search\<close>

function bfs_loop ::
  "'a adjacency \<Rightarrow> 'a \<Rightarrow> 'a set \<Rightarrow> ('a \<times> 'a list) list \<Rightarrow> error + 'a result" where
  "bfs_loop adj goal visited [] = Inr (None, Infinity)"
| "bfs_loop adj goal visited ((node, path) # queue) =
     (if node = goal then Inr (Some path, Cost (int (length path) - 1))
      else if node \<notin> visited then
        (case map_of adj node of
           None \<Rightarrow> Inl KeyError
         | Some edges \<Rightarrow>
             bfs_loop adj goal (insert node visited)
               (queue @ map (\<lambda>(neighbor, w). (neighbor, path @ [neighbor]))
                          (filter (\<lambda>(neighbor, w). neighbor \<notin> insert node visited) edges)))
      else bfs_loop adj goal visited queue)"
  by pat_completeness auto
termination
proof (relation "(\<lambda>(adj, goal, visited, queue). card (fst ` set adj - visited)) <*mlex*>
                 measure (\<lambda>(adj, goal, visited, queue). length queue)", goal_cases)
  case 1
  show ?case by (simp add: wf_mlex)
next
  case (2 adj goal visited node path queue edges)
  from 2 have "node \<in> fst ` set adj - visited"
    by (auto dest!: map_of_SomeD intro: rev_image_eqI)
  then have "card (fst ` set adj - insert node visited) < card (fst ` set adj - visited)"
    by (intro psubset_card_mono) auto
  then show ?case by (simp add: mlex_less)
next
  case 3
  then show ?case by (simp add: mlex_leq)
qed

definition bfs :: "'a adjacency \<Rightarrow> 'a \<Rightarrow> 'a \<Rightarrow> error + 'a result" where
  "bfs adj start goal = bfs_loop adj goal {} [(start, [start])]"

text \<open>The stack of \<open>dfs\<close> has its top at the head: \<open>stack.pop()\<close> takes the entry
  appended last, so the neighbours pushed in order lie reversed on top.\<close>

function dfs_loop ::
  "'a adjacency \<Rightarrow> 'a \<Rightarrow> 'a set \<Rightarrow> ('a \<times> 'a list) list \<Rightarrow> error + 'a result" where
  "dfs_loop adj goal visited [] = Inr (None, Infinity)"
| "dfs_loop adj goal visited ((node, path) # stack) =
     (if node = goal then Inr (Some path, Cost (int (length path) - 1))
      else if node \<notin> visited then
        (case map_of adj node of
           None \<Rightarrow> Inl KeyError
         | Some edges \<Rightarrow>
             dfs_loop adj goal (insert node visited)
               (rev (map (\<lambda>(neighbor, w). (neighbor, path @ [neighbor])) edges) @ stack))
      else dfs_loop adj goal visited stack)"
  by pat_completeness auto
termination
proof (relation "(\<lambda>(adj, goal, visited, stack). card (fst ` set adj - visited)) <*mlex*>
                 measure (\<lambda>(adj, goal, visited, stack). length stack)", goal_cases)
  case 1
  show ?case by (simp add: wf_mlex)
next
  case (2 adj goal visited node path stack edges)
  from 2 have "node \<in> fst ` set adj - visited"
    by (auto dest!: map_of_SomeD intro: rev_image_eqI)
  then have "card (fst ` set adj - insert node visited) < card (fst ` set adj - visited)"
    by (intro psubset_card_mono) auto
  then show ?case by (simp add: mlex_less)
next
  case 3
  then show ?case by (simp add: mlex_leq)
qed

definition dfs :: "'a adjacency \<Rightarrow> 'a \<Rightarrow> 'a \<Rightarrow> error + 'a result" where
  "dfs adj start goal = dfs_loop adj goal {} [(start, [start])]"

text \<open>
  \<open>recurse\<close> of \<open>depth_limited_dfs\<close> calls itself once per neighbour, one frame
  deeper. Python bounds the frames and raises \<open>RecursionError\<close> beyond the bound; the
  first argument is the number of frames left. \<open>recurse_for\<close> is the \<open>for\<close> loop
  over the neighbours; a returned path is never empty, so \<open>if result\<close> is the test
  for a path.
\<close>

fun recurse :: "nat \<Rightarrow> 'a adjacency \<Rightarrow> 'a \<Rightarrow> 'a \<Rightarrow> 'a list \<Rightarrow> int \<Rightarrow> error + 'a list option"
  and recurse_for ::
    "nat \<Rightarrow> 'a adjacency \<Rightarrow> 'a \<Rightarrow> ('a \<times> int) list \<Rightarrow> 'a list \<Rightarrow> int \<Rightarrow> error + 'a list option"
  where
  "recurse 0 adj goal node path depth = Inl RecursionError"
| "recurse (Suc frames) adj goal node path depth =
     (if node = goal then Inr (Some path)
      else if depth = 0 then Inr None
      else (case map_of adj node of
              None \<Rightarrow> Inl KeyError
            | Some edges \<Rightarrow> recurse_for frames adj goal edges path depth))"
| "recurse_for frames adj goal [] path depth = Inr None"
| "recurse_for frames adj goal ((neighbor, w) # edges) path depth =
     (case recurse frames adj goal neighbor (path @ [neighbor]) (depth - 1) of
        Inl e \<Rightarrow> Inl e
      | Inr (Some result) \<Rightarrow> Inr (Some result)
      | Inr None \<Rightarrow> recurse_for frames adj goal edges path depth)"

definition depth_limited_dfs ::
  "nat \<Rightarrow> 'a adjacency \<Rightarrow> 'a \<Rightarrow> 'a \<Rightarrow> int \<Rightarrow> error + 'a result" where
  "depth_limited_dfs frames adj start goal limit =
     (case recurse frames adj goal start [start] limit of
        Inl e \<Rightarrow> Inl e
      | Inr (Some path) \<Rightarrow> Inr (Some path, Cost (int (length path) - 1))
      | Inr None \<Rightarrow> Inr (None, Infinity))"

text \<open>
  A \<open>for\<close> loop with a \<open>return\<close> or a raising lookup in its body ends in one of three
  ways: an exception, a value returned from the enclosing function, or the state at
  the end of the loop.
\<close>

datatype ('s, 'r) outcome = Raise error | Return 'r | Continue 's

subsection \<open>Weighted search\<close>

text \<open>
  The loop of \<open>dijkstra\<close> need not end (a cycle of negative weight is expanded
  for ever), so it is a partial function: \<open>None\<close> is "never returns". \<open>visited\<close> is
  the dict of the best cost at which each node was expanded.
\<close>

definition dijkstra_push ::
  "int \<Rightarrow> 'a list \<Rightarrow> ('a \<times> int) list \<Rightarrow> (int \<times> 'a \<times> 'a list) list \<Rightarrow> (int \<times> 'a \<times> 'a list) list" where
  "dijkstra_push cost path edges pq =
     fold (\<lambda>(neighbor, weight) q. heappush q (cost + weight, neighbor, path @ [neighbor])) edges pq"

partial_function (option) dijkstra_loop ::
  "'a::linorder adjacency \<Rightarrow> 'a \<Rightarrow> ('a \<rightharpoonup> int) \<Rightarrow> (int \<times> 'a \<times> 'a list) list
     \<Rightarrow> (error + 'a result) option" where
  "dijkstra_loop adj goal visited pq =
     (if pq = [] then Some (Inr (None, Infinity))
      else (case heappop pq of ((cost, node, path), pq') \<Rightarrow>
        if node = goal then Some (Inr (Some path, Cost cost))
        else if (case visited node of None \<Rightarrow> False | Some c \<Rightarrow> c \<le> cost)
          then dijkstra_loop adj goal visited pq'
        else (case map_of adj node of
                None \<Rightarrow> Some (Inl KeyError)
              | Some edges \<Rightarrow>
                  dijkstra_loop adj goal (visited(node \<mapsto> cost))
                    (dijkstra_push cost path edges pq'))))"

declare dijkstra_loop.simps [code]

definition dijkstra :: "'a::linorder adjacency \<Rightarrow> 'a \<Rightarrow> 'a \<Rightarrow> (error + 'a result) option" where
  "dijkstra adj start goal = dijkstra_loop adj goal Map.empty [(0, start, [start])]"

subsection \<open>Informed search\<close>

text \<open>
  The heuristic is a callable; those of heuristics.py raise \<open>TypeError\<close> on node
  shapes they do not support, so a heuristic is a function into \<open>error + real\<close> and
  a raise inside a search ends the search.
\<close>

type_synonym 'a heuristic = "'a \<Rightarrow> 'a \<Rightarrow> error + real"

fun greedy_push ::
  "'a heuristic \<Rightarrow> 'a \<Rightarrow> 'a list \<Rightarrow> int \<Rightarrow> ('a \<times> int) list \<Rightarrow> (real \<times> 'a \<times> 'a list \<times> int) list
     \<Rightarrow> error + (real \<times> 'a \<times> 'a list \<times> int) list" where
  "greedy_push heuristic goal path cost [] pq = Inr pq"
| "greedy_push heuristic goal path cost ((neighbor, w) # edges) pq =
     (case heuristic neighbor goal of
        Inl e \<Rightarrow> Inl e
      | Inr hv \<Rightarrow>
          greedy_push heuristic goal path cost edges
            (heappush pq (hv, neighbor, path @ [neighbor], cost + w)))"

function greedy_loop ::
  "'a::linorder adjacency \<Rightarrow> 'a heuristic \<Rightarrow> 'a \<Rightarrow> 'a set \<Rightarrow> (real \<times> 'a \<times> 'a list \<times> int) list
     \<Rightarrow> error + 'a result" where
  "greedy_loop adj heuristic goal visited pq =
     (if pq = [] then Inr (None, Infinity)
      else (case heappop pq of ((hv, node, path, cost), pq') \<Rightarrow>
        if node = goal then Inr (Some path, Cost cost)
        else if node \<notin> visited then
          (case map_of adj node of
             None \<Rightarrow> Inl KeyError
           | Some edges \<Rightarrow>
               (case greedy_push heuristic goal path cost edges pq' of
                  Inl e \<Rightarrow> Inl e
                | Inr pq'' \<Rightarrow> greedy_loop adj heuristic goal (insert node visited) pq''))
        else greedy_loop adj heuristic goal visited pq'))"
  by pat_completeness auto
termination
proof (relation "(\<lambda>(adj, heuristic, goal, visited, pq). card (fst ` set adj - visited)) <*mlex*>
                 measure (\<lambda>(adj, heuristic, goal, visited, pq). length pq)", goal_cases)
  case 1
  show ?case by (simp add: wf_mlex)
next
  case (2 adj heuristic goal visited pq x1 pq' hv x2 node x3 path cost edges pq'')
  from 2 have "node \<in> fst ` set adj - visited"
    by (auto dest!: map_of_SomeD intro: rev_image_eqI)
  then have "card (fst ` set adj - insert node visited) < card (fst ` set adj - visited)"
    by (intro psubset_card_mono) auto
  then show ?case by (simp add: mlex_less)
next
  case (3 adj heuristic goal visited pq x1 pq' hv x2 node x3 path cost)
  from 3 have "pq' = remove1 (min_list pq) pq" "min_list pq \<in> set pq"
    by (auto simp: heappop_def min_list_Min)
  then have "length pq' < length pq"
    using \<open>pq \<noteq> []\<close> by (simp add: length_remove1)
  then show ?case by (simp add: mlex_leq)
qed

definition greedy_best ::
  "'a::linorder adjacency \<Rightarrow> 'a \<Rightarrow> 'a \<Rightarrow> 'a heuristic \<Rightarrow> error + 'a result" where
  "greedy_best adj start goal heuristic =
     (case heuristic start goal of
        Inl e \<Rightarrow> Inl e
      | Inr hv \<Rightarrow> greedy_loop adj heuristic goal {} [(hv, start, [start], 0)])"

fun a_star_push ::
  "'a heuristic \<Rightarrow> 'a \<Rightarrow> 'a list \<Rightarrow> int \<Rightarrow> ('a \<times> int) list \<Rightarrow> (real \<times> int \<times> 'a \<times> 'a list) list
     \<Rightarrow> error + (real \<times> int \<times> 'a \<times> 'a list) list" where
  "a_star_push heuristic goal path g [] pq = Inr pq"
| "a_star_push heuristic goal path g ((neighbor, weight) # edges) pq =
     (case heuristic neighbor goal of
        Inl e \<Rightarrow> Inl e
      | Inr hv \<Rightarrow>
          a_star_push heuristic goal path g edges
            (heappush pq (real_of_int (g + weight) + hv, g + weight, neighbor, path @ [neighbor])))"

partial_function (option) a_star_loop ::
  "'a::linorder adjacency \<Rightarrow> 'a heuristic \<Rightarrow> 'a \<Rightarrow> ('a \<rightharpoonup> int)
     \<Rightarrow> (real \<times> int \<times> 'a \<times> 'a list) list \<Rightarrow> (error + 'a result) option" where
  "a_star_loop adj heuristic goal visited pq =
     (if pq = [] then Some (Inr (None, Infinity))
      else (case heappop pq of ((f, g, node, path), pq') \<Rightarrow>
        if node = goal then Some (Inr (Some path, Cost g))
        else if (case visited node of None \<Rightarrow> False | Some c \<Rightarrow> c \<le> g)
          then a_star_loop adj heuristic goal visited pq'
        else (case map_of adj node of
                None \<Rightarrow> Some (Inl KeyError)
              | Some edges \<Rightarrow>
                  (case a_star_push heuristic goal path g edges pq' of
                     Inl e \<Rightarrow> Some (Inl e)
                   | Inr pq'' \<Rightarrow> a_star_loop adj heuristic goal (visited(node \<mapsto> g)) pq''))))"

declare a_star_loop.simps [code]

definition a_star ::
  "'a::linorder adjacency \<Rightarrow> 'a \<Rightarrow> 'a \<Rightarrow> 'a heuristic \<Rightarrow> (error + 'a result) option" where
  "a_star adj start goal heuristic =
     (case heuristic start goal of
        Inl e \<Rightarrow> Some (Inl e)
      | Inr hv \<Rightarrow> a_star_loop adj heuristic goal Map.empty [(hv, 0, start, [start])])"

subsection \<open>Bidirectional search\<close>

text \<open>
  One \<open>for\<close> loop of \<open>bidirectional_bfs\<close>, for either side: \<open>mine\<close> is the dict
  of the side that expands \<open>node\<close>, \<open>other\<close> the opposite one. It returns the two
  paths stored for the meeting node, \<open>mine[neighbor]\<close> first.
\<close>

fun bidirectional_for ::
  "('a \<rightharpoonup> 'a list) \<Rightarrow> ('a \<rightharpoonup> 'a list) \<Rightarrow> 'a \<Rightarrow> ('a \<times> int) list \<Rightarrow> 'a list
     \<Rightarrow> (('a \<rightharpoonup> 'a list) \<times> 'a list, 'a list \<times> 'a list) outcome" where
  "bidirectional_for mine other node [] q = Continue (mine, q)"
| "bidirectional_for mine other node ((neighbor, w) # edges) q =
     (if mine neighbor = None then
        (case mine node of
           None \<Rightarrow> Raise KeyError
         | Some node_path \<Rightarrow>
             (case other neighbor of
                Some other_path \<Rightarrow> Return (node_path @ [neighbor], other_path)
              | None \<Rightarrow>
                  bidirectional_for (mine(neighbor \<mapsto> node_path @ [neighbor])) other node edges
                    (q @ [neighbor])))
      else bidirectional_for mine other node edges q)"

text \<open>\<open>xs[-2::-1]\<close> is \<open>xs\<close> without its last element, reversed.\<close>

definition meet_path :: "'a list \<Rightarrow> 'a list \<Rightarrow> 'a result" where
  "meet_path front_path back_path =
     (let path = front_path @ rev (butlast back_path)
      in (Some path, Cost (int (length path) - 1)))"

lemma bidirectional_for_measure:
  "bidirectional_for mine other node edges q = Continue (mine', q') \<Longrightarrow>
   fst ` set edges \<subseteq> N \<Longrightarrow> finite N \<Longrightarrow>
   card (N - dom mine') + length q' \<le> card (N - dom mine) + length q"
proof (induction mine other node edges q rule: bidirectional_for.induct)
  case (1 mine other node q)
  then show ?case by simp
next
  case (2 mine other node neighbor w edges q)
  show ?case
  proof (cases "mine neighbor = None")
    case False
    with 2 show ?thesis by simp
  next
    case True
    with "2.prems" obtain node_path where np: "mine node = Some node_path"
      by (auto split: option.splits)
    with True "2.prems" have on: "other neighbor = None"
      by (auto split: option.splits)
    let ?m = "mine(neighbor \<mapsto> node_path @ [neighbor])"
    from True np on "2.prems"(1)
    have "bidirectional_for ?m other node edges (q @ [neighbor]) = Continue (mine', q')"
      by simp
    moreover have "fst ` set edges \<subseteq> N"
      using "2.prems"(2) by auto
    ultimately
    have "card (N - dom mine') + length q' \<le> card (N - dom ?m) + length (q @ [neighbor])"
      using "2.IH"(1)[OF True np on] \<open>finite N\<close> by blast
    moreover have "neighbor \<in> N - dom mine"
      using True "2.prems"(2) by (auto simp: dom_def)
    then have "card (N - dom ?m) < card (N - dom mine)"
      using \<open>finite N\<close> by (intro psubset_card_mono) auto
    ultimately show ?thesis by simp
  qed
qed

function bidirectional_loop ::
  "'a adjacency \<Rightarrow> ('a \<rightharpoonup> 'a list) \<Rightarrow> ('a \<rightharpoonup> 'a list) \<Rightarrow> 'a list \<Rightarrow> 'a list
     \<Rightarrow> error + 'a result" where
  "bidirectional_loop adj front back [] q_back = Inr (None, Infinity)"
| "bidirectional_loop adj front back (node # q_front) [] = Inr (None, Infinity)"
| "bidirectional_loop adj front back (node # q_front) (node' # q_back) =
     (case map_of adj node of
        None \<Rightarrow> Inl KeyError
      | Some edges \<Rightarrow>
          (case bidirectional_for front back node edges q_front of
             Raise e \<Rightarrow> Inl e
           | Return (front_path, back_path) \<Rightarrow> Inr (meet_path front_path back_path)
           | Continue (front', q_front') \<Rightarrow>
               (case map_of adj node' of
                  None \<Rightarrow> Inl KeyError
                | Some edges' \<Rightarrow>
                    (case bidirectional_for back front' node' edges' q_back of
                       Raise e \<Rightarrow> Inl e
                     | Return (back_path, front_path) \<Rightarrow> Inr (meet_path front_path back_path)
                     | Continue (back', q_back') \<Rightarrow>
                         bidirectional_loop adj front' back' q_front' q_back'))))"
  by pat_completeness auto
termination
proof (relation "measure (\<lambda>(adj, front, back, q_front, q_back).
    card (fst ` (\<Union>(u, edges) \<in> set adj. set edges) - dom front) + length q_front +
    (card (fst ` (\<Union>(u, edges) \<in> set adj. set edges) - dom back) + length q_back))", goal_cases)
  case 1
  show ?case by simp
next
  case (2 adj front bk node q_front node' q_back edges x2 front' q_front' edges' x2a bk' q_back')
  let ?N = "fst ` (\<Union>(u, edges) \<in> set adj. set edges)"
  have fin: "finite ?N" by auto
  from 2 have "(node, edges) \<in> set adj" "(node', edges') \<in> set adj"
    by (auto dest: map_of_SomeD)
  then have sub: "fst ` set edges \<subseteq> ?N" "fst ` set edges' \<subseteq> ?N"
    by fastforce+
  from 2 have a: "bidirectional_for front bk node edges q_front = Continue (front', q_front')"
    and b: "bidirectional_for bk front' node' edges' q_back = Continue (bk', q_back')"
    by simp_all
  from bidirectional_for_measure[OF a sub(1) fin] bidirectional_for_measure[OF b sub(2) fin]
  show ?case by simp
qed

definition bidirectional_bfs :: "'a adjacency \<Rightarrow> 'a \<Rightarrow> 'a \<Rightarrow> error + 'a result" where
  "bidirectional_bfs adj start goal =
     (if start = goal then Inr (Some [start], Cost 0)
      else bidirectional_loop adj [start \<mapsto> [start]] [goal \<mapsto> [goal]] [start] [goal])"

definition bidirectional_dijkstra ::
  "'a::linorder adjacency \<Rightarrow> 'a \<Rightarrow> 'a \<Rightarrow> (error + 'a result) option" where
  "bidirectional_dijkstra adj start goal = dijkstra adj start goal"

subsection \<open>Bellman-Ford\<close>

text \<open>
  The state of the relaxation is \<open>(dist, prev, updated)\<close>. \<open>dist[v]\<close> raises
  \<open>KeyError\<close> for a node that is neither a key of the graph nor the start.
\<close>

type_synonym 'a bf_state = "('a \<rightharpoonup> cost) \<times> ('a \<rightharpoonup> 'a) \<times> bool"

fun relax_edges :: "'a \<Rightarrow> ('a \<times> int) list \<Rightarrow> 'a bf_state \<Rightarrow> error + 'a bf_state" where
  "relax_edges u [] st = Inr st"
| "relax_edges u ((v, w) # edges) (dists, prev, updated) =
     (case dists u of
        None \<Rightarrow> Inl KeyError
      | Some du \<Rightarrow>
          (case dists v of
             None \<Rightarrow> Inl KeyError
           | Some dv \<Rightarrow>
               if cost_less (cost_add du w) dv
               then relax_edges u edges (dists(v \<mapsto> cost_add du w), prev(v \<mapsto> u), True)
               else relax_edges u edges (dists, prev, updated)))"

fun relax_all :: "'a adjacency \<Rightarrow> 'a bf_state \<Rightarrow> error + 'a bf_state" where
  "relax_all [] st = Inr st"
| "relax_all ((u, edges) # items) st =
     (case relax_edges u edges st of
        Inl e \<Rightarrow> Inl e
      | Inr st' \<Rightarrow> relax_all items st')"

fun bellman_ford_passes ::
  "nat \<Rightarrow> 'a adjacency \<Rightarrow> ('a \<rightharpoonup> cost) \<times> ('a \<rightharpoonup> 'a) \<Rightarrow> error + ('a \<rightharpoonup> cost) \<times> ('a \<rightharpoonup> 'a)" where
  "bellman_ford_passes 0 adj (dists, prev) = Inr (dists, prev)"
| "bellman_ford_passes (Suc n) adj (dists, prev) =
     (case relax_all adj (dists, prev, False) of
        Inl e \<Rightarrow> Inl e
      | Inr (dists', prev', updated) \<Rightarrow>
          if \<not> updated then Inr (dists', prev')
          else bellman_ford_passes n adj (dists', prev'))"

text \<open>The reconstruction follows \<open>prev\<close> until a node without predecessor; on a
  cycle of \<open>prev\<close> it never ends.\<close>

partial_function (option) bellman_ford_path :: "('a \<rightharpoonup> 'a) \<Rightarrow> 'a list \<Rightarrow> 'a list option" where
  "bellman_ford_path prev path =
     (case prev (last path) of
        None \<Rightarrow> Some path
      | Some p \<Rightarrow> bellman_ford_path prev (path @ [p]))"

declare bellman_ford_path.simps [code]

definition bellman_ford :: "'a adjacency \<Rightarrow> 'a \<Rightarrow> 'a \<Rightarrow> (error + 'a result) option" where
  "bellman_ford adj start goal =
     (case bellman_ford_passes (length adj - 1) adj
             ((map_of (map (\<lambda>(u, edges). (u, Infinity)) adj))(start \<mapsto> Cost 0), Map.empty) of
        Inl e \<Rightarrow> Some (Inl e)
      | Inr (dists, prev) \<Rightarrow>
          (case dists goal of
             None \<Rightarrow> Some (Inl KeyError)
           | Some Infinity \<Rightarrow> Some (Inr (None, Infinity))
           | Some (Cost c) \<Rightarrow>
               (case bellman_ford_path prev [goal] of
                  None \<Rightarrow> None
                | Some path \<Rightarrow> Some (Inr (Some (rev path), Cost c)))))"

section \<open>landmarks.py\<close>

text \<open>\<open>d[k].append(v)\<close> on a \<open>defaultdict(list)\<close>: a new key goes to the end of the dict.\<close>

fun dict_append :: "('k \<times> 'v list) list \<Rightarrow> 'k \<Rightarrow> 'v \<Rightarrow> ('k \<times> 'v list) list" where
  "dict_append [] k v = [(k, [v])]"
| "dict_append ((k', vs) # d) k v =
     (if k' = k then (k', vs @ [v]) # d else (k', vs) # dict_append d k v)"

text \<open>\<open>d[k] = v\<close>: an existing key keeps its place, a new one goes to the end.\<close>

fun dict_set :: "('k \<times> 'v) list \<Rightarrow> 'k \<Rightarrow> 'v \<Rightarrow> ('k \<times> 'v) list" where
  "dict_set [] k v = [(k, v)]"
| "dict_set ((k', v') # d) k v =
     (if k' = k then (k', v) # d else (k', v') # dict_set d k v)"

definition reverse_graph :: "'a adjacency \<Rightarrow> 'a adjacency" where
  "reverse_graph adj =
     fold (\<lambda>(u, edges) r. fold (\<lambda>(v, w) r. dict_append r v (u, w)) edges r) adj []"

text \<open>
  \<open>dijkstra_from_source\<close> returns the dict of distances; a node without entry is
  unreachable (\<open>dist.get(v, inf)\<close> at every use). Its loop need not end either.
\<close>

definition relax_from ::
  "int \<Rightarrow> ('a \<times> int) list \<Rightarrow> ('a \<rightharpoonup> int) \<times> (int \<times> 'a) list \<Rightarrow> ('a \<rightharpoonup> int) \<times> (int \<times> 'a) list" where
  "relax_from d edges st =
     fold (\<lambda>(v, w) (dists, pq).
            let nd = d + w in
            if (case dists v of None \<Rightarrow> True | Some dv \<Rightarrow> nd < dv)
            then (dists(v \<mapsto> nd), heappush pq (nd, v))
            else (dists, pq)) edges st"

partial_function (option) dijkstra_from_source_loop ::
  "'a::linorder adjacency \<Rightarrow> ('a \<rightharpoonup> int) \<Rightarrow> (int \<times> 'a) list \<Rightarrow> (error + ('a \<rightharpoonup> int)) option" where
  "dijkstra_from_source_loop adj dists pq =
     (if pq = [] then Some (Inr dists)
      else (case heappop pq of ((d, u), pq') \<Rightarrow>
        (case dists u of
           None \<Rightarrow> Some (Inl KeyError)
         | Some du \<Rightarrow>
             if d > du then dijkstra_from_source_loop adj dists pq'
             else (case relax_from d (adj_get adj u) (dists, pq') of
                     (dists', pq'') \<Rightarrow> dijkstra_from_source_loop adj dists' pq''))))"

declare dijkstra_from_source_loop.simps [code]

definition dijkstra_from_source ::
  "'a::linorder adjacency \<Rightarrow> 'a \<Rightarrow> (error + ('a \<rightharpoonup> int)) option" where
  "dijkstra_from_source adj src = dijkstra_from_source_loop adj [src \<mapsto> 0] [(0, src)]"

text \<open>\<open>max(xs, key=...)\<close> returns the first element whose key is greatest;
  \<open>lt\<close> is the order of the keys.\<close>

fun max_from :: "('k \<Rightarrow> 'k \<Rightarrow> bool) \<Rightarrow> ('a \<Rightarrow> 'k) \<Rightarrow> 'a \<Rightarrow> 'a list \<Rightarrow> 'a" where
  "max_from lt key best [] = best"
| "max_from lt key best (x # xs) =
     (if lt (key best) (key x) then max_from lt key x xs else max_from lt key best xs)"

definition py_max :: "('k \<Rightarrow> 'k \<Rightarrow> bool) \<Rightarrow> ('a \<Rightarrow> 'k) \<Rightarrow> 'a list \<Rightarrow> error + 'a" where
  "py_max lt key xs = (case xs of [] \<Rightarrow> Inl ValueError | x # xs' \<Rightarrow> Inr (max_from lt key x xs'))"

definition out_degree :: "'a adjacency \<Rightarrow> 'a \<Rightarrow> nat" where
  "out_degree adj u = length (adj_get adj u)"

definition dist_get :: "('a \<rightharpoonup> int) \<Rightarrow> 'a \<Rightarrow> cost" where
  "dist_get dists u = (case dists u of None \<Rightarrow> Infinity | Some d \<Rightarrow> Cost d)"



text \<open>
  One round of that loop, read on its own: \<open>candidate_pool\<close> is the list
  \<open>candidates\<close>, and \<open>farthest adj last\<close> is the node \<open>far\<close> that a round computes
  from the last landmark, \<open>max(candidates, key=lambda u: dist.get(u, inf))\<close> on the
  table \<open>dijkstra_from_source(adj, last)\<close>.
\<close>

definition candidate_pool :: "'a::linorder adjacency \<Rightarrow> 'a list" where
  "candidate_pool adj =
     take (min 5000 (length adj)) (sort_key (\<lambda>u. - int (out_degree adj u)) (map fst adj))"

definition farthest :: "'a::linorder adjacency \<Rightarrow> 'a \<Rightarrow> (error + 'a) option" where
  "farthest adj u =
     (case dijkstra_from_source adj u of
        None \<Rightarrow> None
      | Some (Inl e) \<Rightarrow> Some (Inl e)
      | Some (Inr dists) \<Rightarrow> Some (py_max cost_less (dist_get dists) (candidate_pool adj)))"

type_synonym 'a table = "('a \<times> ('a \<rightharpoonup> int)) list"

fun build_tables_loop ::
  "'a::linorder adjacency \<Rightarrow> 'a adjacency \<Rightarrow> 'a list \<Rightarrow> 'a table \<times> 'a table
     \<Rightarrow> (error + 'a table \<times> 'a table) option" where
  "build_tables_loop adj radj [] tables = Some (Inr tables)"
| "build_tables_loop adj radj (L # landmarks) (dist_L_to_v, dist_v_to_L) =
     (case dijkstra_from_source adj L of
        None \<Rightarrow> None
      | Some (Inl e) \<Rightarrow> Some (Inl e)
      | Some (Inr fwd) \<Rightarrow>
          (case dijkstra_from_source radj L of
             None \<Rightarrow> None
           | Some (Inl e) \<Rightarrow> Some (Inl e)
           | Some (Inr bwd) \<Rightarrow>
               build_tables_loop adj radj landmarks
                 (dict_set dist_L_to_v L fwd, dict_set dist_v_to_L L bwd)))"

definition build_tables ::
  "'a::linorder adjacency \<Rightarrow> 'a list \<Rightarrow> (error + 'a table \<times> 'a table) option" where
  "build_tables adj landmarks = build_tables_loop adj (reverse_graph adj) landmarks ([], [])"

text \<open>
  The closure \<open>h\<close> returned by \<open>alt_heuristic_factory\<close>. The columns \<open>dLt\<close> and
  \<open>dtL\<close> are built when the factory is called, \<open>dist_v_to_L[L]\<close> and \<open>dtL[L]\<close> are
  looked up for the keys of \<open>dist_L_to_v\<close> and raise \<open>KeyError\<close> for a landmark the
  reverse table lacks.
\<close>

fun alt_h_loop ::
  "'a table \<Rightarrow> ('a \<times> cost) list \<Rightarrow> ('a \<times> cost) list \<Rightarrow> 'a \<Rightarrow> ('a \<times> ('a \<rightharpoonup> int)) list \<Rightarrow> real
     \<Rightarrow> error + real" where
  "alt_h_loop dist_v_to_L dLt dtL u [] best = Inr best"
| "alt_h_loop dist_v_to_L dLt dtL u ((L, fwd) # keys) best =
     (let dLs = dist_get fwd u in
      case map_of dist_v_to_L L of
        None \<Rightarrow> Inl KeyError
      | Some bwd \<Rightarrow>
          (let dsL = dist_get bwd u in
           case map_of dLt L of
             None \<Rightarrow> Inl KeyError
           | Some dLt_L \<Rightarrow>
               (let best1 =
                      (case (dLt_L, dLs) of
                         (Cost a, Cost b) \<Rightarrow>
                           if real_of_int \<bar>a - b\<bar> > best then real_of_int \<bar>a - b\<bar> else best
                       | _ \<Rightarrow> best)
                in case map_of dtL L of
                     None \<Rightarrow> Inl KeyError
                   | Some dtL_L \<Rightarrow>
                       (let best2 =
                              (case (dtL_L, dsL) of
                                 (Cost a, Cost b) \<Rightarrow>
                                   if real_of_int \<bar>b - a\<bar> > best1 then real_of_int \<bar>b - a\<bar>
                                   else best1
                               | _ \<Rightarrow> best1)
                        in alt_h_loop dist_v_to_L dLt dtL u keys best2))))"

definition alt_heuristic_factory :: "'a \<Rightarrow> 'a table \<Rightarrow> 'a table \<Rightarrow> 'a heuristic" where
  "alt_heuristic_factory goal dist_L_to_v dist_v_to_L =
     (let dLt = map (\<lambda>(L, fwd). (L, dist_get fwd goal)) dist_L_to_v;
          dtL = map (\<lambda>(L, bwd). (L, dist_get bwd goal)) dist_v_to_L
      in (\<lambda>u v. alt_h_loop dist_v_to_L dLt dtL u dist_L_to_v 0))"

section \<open>heuristics.py\<close>

text \<open>
  A node handed to a heuristic is a Python \<open>int\<close> or a tuple of numbers; the
  coordinates are real numbers here, with the exact \<open>sqrt\<close>, \<open>sin\<close>, \<open>cos\<close> and
  \<open>arcsin\<close> (no rounding, no NaN). \<open>math.sqrt\<close> and \<open>math.asin\<close> raise
  \<open>ValueError\<close> outside their domains.
\<close>

datatype shape = Scalar int | Tuple "real list"

fun is_int :: "shape \<Rightarrow> bool" where
  "is_int (Scalar n) = True"
| "is_int (Tuple xs) = False"

fun is_pair :: "shape \<Rightarrow> bool" where
  "is_pair (Scalar n) = False"
| "is_pair (Tuple xs) = (length xs = 2)"

definition zero_heuristic :: "'a heuristic" where
  "zero_heuristic u v = Inr 0"

fun manhattan :: "shape heuristic" where
  "manhattan (Scalar u) (Scalar v) = Inr (real_of_int \<bar>u - v\<bar>)"
| "manhattan (Tuple [u0, u1]) (Tuple [v0, v1]) = Inr (\<bar>u0 - v0\<bar> + \<bar>u1 - v1\<bar>)"
| "manhattan u v = Inl TypeError"

fun euclidean :: "shape heuristic" where
  "euclidean (Scalar u) (Scalar v) = Inr (real_of_int \<bar>u - v\<bar>)"
| "euclidean (Tuple [u0, u1]) (Tuple [v0, v1]) = Inr (sqrt ((u0 - v0)\<^sup>2 + (u1 - v1)\<^sup>2))"
| "euclidean u v = Inl TypeError"

fun chebyshev :: "shape heuristic" where
  "chebyshev (Scalar u) (Scalar v) = Inr (real_of_int \<bar>u - v\<bar>)"
| "chebyshev (Tuple [u0, u1]) (Tuple [v0, v1]) = Inr (max \<bar>u0 - v0\<bar> \<bar>u1 - v1\<bar>)"
| "chebyshev u v = Inl TypeError"

fun octile :: "shape heuristic" where
  "octile (Scalar u) (Scalar v) = Inr (real_of_int \<bar>u - v\<bar>)"
| "octile (Tuple [u0, u1]) (Tuple [v0, v1]) =
     (let dx = \<bar>u0 - v0\<bar>; dy = \<bar>u1 - v1\<bar>
      in Inr (max dx dy + (sqrt 2 - 1) * min dx dy))"
| "octile u v = Inl TypeError"

definition radians :: "real \<Rightarrow> real" where
  "radians x = x * pi / 180"

fun haversine :: "shape heuristic" where
  "haversine (Tuple [u0, u1]) (Tuple [v0, v1]) =
     (let R = 6371;
          lat1 = radians u0; lon1 = radians u1;
          lat2 = radians v0; lon2 = radians v1;
          dlat = lat2 - lat1; dlon = lon2 - lon1;
          a = (sin (dlat / 2))\<^sup>2 + cos lat1 * cos lat2 * (sin (dlon / 2))\<^sup>2
      in if a < 0 \<or> 1 < a then Inl ValueError
         else Inr (2 * R * arcsin (sqrt a)))"
| "haversine u v = Inl TypeError"

section \<open>pathfinder.py\<close>

text \<open>
  \<open>Index\<close> is a \<open>TypedDict\<close> with \<open>total=False\<close>: every key may be missing, so
  every field is an option. The component map is a dict in insertion order.
\<close>

record 'a index =
  weight_map :: "('a \<times> ('a \<times> int) list) list option"
  weak_components :: "('a \<times> nat) list option"
  uniform_weights :: "bool option"
  node_count :: "int option"
  edge_count :: "int option"
  landmarks :: "'a list option"
  dist_L_to_v :: "'a table option"
  dist_v_to_L :: "'a table option"

definition empty_index :: "'a index" where
  "empty_index = \<lparr>weight_map = None, weak_components = None, uniform_weights = None,
     node_count = None, edge_count = None, landmarks = None, dist_L_to_v = None,
     dist_v_to_L = None\<rparr>"

definition build_und :: "'a adjacency \<Rightarrow> ('a \<times> 'a list) list" where
  "build_und adj =
     fold (\<lambda>(u, edges) und.
            fold (\<lambda>(v, w) und. dict_append (dict_append und u v) v u) edges und) adj []"

fun flood_for :: "nat \<Rightarrow> 'a list \<Rightarrow> ('a \<times> nat) list \<times> 'a list \<Rightarrow> ('a \<times> nat) list \<times> 'a list" where
  "flood_for cid [] (cmp, q) = (cmp, q)"
| "flood_for cid (y # ys) (cmp, q) =
     (if map_of cmp y = None then flood_for cid ys (cmp @ [(y, cid)], q @ [y])
      else flood_for cid ys (cmp, q))"

lemma flood_for_measure:
  "flood_for cid ys (cmp, q) = (cmp', q') \<Longrightarrow> set ys \<subseteq> N \<Longrightarrow> finite N \<Longrightarrow>
   card (N - fst ` set cmp') + length q' \<le> card (N - fst ` set cmp) + length q"
proof (induction cid ys "(cmp, q)" arbitrary: cmp q rule: flood_for.induct)
  case (1 cid cmp q)
  then show ?case by simp
next
  case (2 cid y ys cmp q)
  show ?case
  proof (cases "map_of cmp y = None")
    case False
    with 2 show ?thesis by simp
  next
    case True
    then have "y \<in> N - fst ` set cmp"
      using "2.prems"(2) by (auto simp: map_of_eq_None_iff)
    then have "card (N - fst ` set (cmp @ [(y, cid)])) < card (N - fst ` set cmp)"
      using \<open>finite N\<close> by (intro psubset_card_mono) auto
    moreover have "card (N - fst ` set cmp') + length q'
        \<le> card (N - fst ` set (cmp @ [(y, cid)])) + length (q @ [y])"
      using "2.hyps"(1)[OF True] "2.prems" True by simp
    ultimately show ?thesis by simp
  qed
qed

function flood_while ::
  "('a \<times> 'a list) list \<Rightarrow> nat \<Rightarrow> ('a \<times> nat) list \<Rightarrow> 'a list \<Rightarrow> ('a \<times> nat) list" where
  "flood_while und cid cmp [] = cmp"
| "flood_while und cid cmp (x # q) =
     (case flood_for cid (adj_get und x) (cmp, q) of
        (cmp', q') \<Rightarrow> flood_while und cid cmp' q')"
  by pat_completeness auto
termination
proof (relation "measure (\<lambda>(und, cid, cmp, q).
    card ((\<Union>(u, ys) \<in> set und. set ys) - fst ` set cmp) + length q)", goal_cases)
  case 1
  show ?case by simp
next
  case (2 und cid cmp x q cmp' q')
  let ?N = "\<Union>(u, ys) \<in> set und. set ys"
  have "set (adj_get und x) \<subseteq> ?N"
  proof (cases "map_of und x")
    case None
    then show ?thesis by (simp add: adj_get_def)
  next
    case (Some ys)
    then have "(x, ys) \<in> set und" by (rule map_of_SomeD)
    then show ?thesis using Some by (fastforce simp: adj_get_def)
  qed
  moreover have "finite ?N" by auto
  moreover from 2 have fl: "flood_for cid (adj_get und x) (cmp, q) = (cmp', q')"
    by simp
  ultimately have "card (?N - fst ` set cmp') + length q' \<le> card (?N - fst ` set cmp) + length q"
    by (intro flood_for_measure[OF fl])
  then show ?case by simp
qed

text \<open>The loop over \<open>adj.keys()\<close>; the state is \<open>(comp, cid)\<close>.\<close>

definition build_weak_components :: "'a adjacency \<Rightarrow> ('a \<times> nat) list" where
  "build_weak_components adj =
     fst (fold (\<lambda>start (cmp, cid).
                 if map_of cmp start \<noteq> None then (cmp, cid)
                 else (flood_while (build_und adj) (cid + 1) (cmp @ [(start, cid + 1)]) [start],
                       cid + 1))
               (map fst adj) ([], 0))"

text \<open>\<open>_reachable\<close>: \<open>not index\<close> holds of \<open>None\<close> and of the dict without keys.\<close>

definition index_is_empty :: "'a index \<Rightarrow> bool" where
  "index_is_empty idx =
     (Option.is_none (weight_map idx) \<and> Option.is_none (weak_components idx) \<and>
      Option.is_none (uniform_weights idx) \<and> Option.is_none (node_count idx) \<and>
      Option.is_none (edge_count idx) \<and> Option.is_none (landmarks idx) \<and>
      Option.is_none (dist_L_to_v idx) \<and> Option.is_none (dist_v_to_L idx))"

definition reachable :: "'a index option \<Rightarrow> 'a \<Rightarrow> 'a \<Rightarrow> bool" where
  "reachable index s g =
     (case index of
        None \<Rightarrow> True
      | Some idx \<Rightarrow>
          if index_is_empty idx then True
          else (case weak_components idx of
                  None \<Rightarrow> True
                | Some cmp \<Rightarrow> if cmp = [] then True else map_of cmp s = map_of cmp g))"

text \<open>
  \<open>choose_algorithm\<close> returns a callable, here a function of \<open>(a, s, g)\<close>. The
  closure \<open>_strategy\<close> of the ALT branch reads the global name \<open>landmarks\<close>;
  pathfinder.py binds the names of landmarks.py with \<open>from landmarks import *\<close>,
  which binds no name \<open>landmarks\<close>, so every call of the closure raises
  \<open>NameError\<close> at \<open>landmarks.alt_heuristic_factory\<close>, before \<open>a_star\<close> is reached.
  \<open>a_star_alt\<close> is what the body of the closure describes.
\<close>

definition AStar_ALT ::
  "'a index \<Rightarrow> 'a::linorder adjacency \<Rightarrow> 'a \<Rightarrow> 'a \<Rightarrow> (error + 'a result) option" where
  "AStar_ALT idx a s g = Some (Inl NameError)"

definition a_star_alt ::
  "'a index \<Rightarrow> 'a::linorder adjacency \<Rightarrow> 'a \<Rightarrow> 'a \<Rightarrow> (error + 'a result) option" where
  "a_star_alt idx a s g =
     a_star a s g
       (alt_heuristic_factory g
          (case dist_L_to_v idx of None \<Rightarrow> [] | Some t \<Rightarrow> t)
          (case dist_v_to_L idx of None \<Rightarrow> [] | Some t \<Rightarrow> t))"

definition choose_algorithm ::
  "'a::linorder adjacency \<Rightarrow> 'a index option
     \<Rightarrow> ('a adjacency \<Rightarrow> 'a \<Rightarrow> 'a \<Rightarrow> (error + 'a result) option)" where
  "choose_algorithm adj index =
     (let idx = (case index of None \<Rightarrow> empty_index | Some i \<Rightarrow> i);
          node_count = (case node_count idx of None \<Rightarrow> int (length adj) | Some n \<Rightarrow> n);
          uniform = (case uniform_weights idx of None \<Rightarrow> True | Some b \<Rightarrow> b)
      in if \<not> Option.is_none (landmarks idx) then AStar_ALT idx
         else if list_ex (\<lambda>(u, edges). list_ex (\<lambda>(v, w). w < 0) edges) adj then bellman_ford
         else if node_count > 10000 then (\<lambda>a s g. a_star a s g zero_heuristic)
         else if uniform then (\<lambda>a s g. Some (bfs a s g))
         else dijkstra)"

definition find_path ::
  "'a::linorder adjacency \<Rightarrow> 'a \<Rightarrow> 'a \<Rightarrow> 'a index option \<Rightarrow> (error + 'a result) option" where
  "find_path adj start goal index =
     (if start = goal then Some (Inr (Some [start], Cost 0))
      else if \<not> reachable index start goal then Some (Inr (None, Infinity))
      else choose_algorithm adj index adj start goal)"

section \<open>Graphs, walks and distances\<close>

text \<open>
  A walk is a non-empty list of nodes in which every node but the last has an edge to
  its successor; \<open>walk adj p c\<close> holds when the weights of such edges, one for each
  step of \<open>p\<close>, sum to \<open>c\<close> (parallel edges give one list several costs).
\<close>

fun walk :: "'a adjacency \<Rightarrow> 'a list \<Rightarrow> int \<Rightarrow> bool" where
  "walk adj [] c = False"
| "walk adj [u] c = (c = 0)"
| "walk adj (u # v # p) c =
     (case map_of adj u of
        None \<Rightarrow> False
      | Some edges \<Rightarrow> list_ex (\<lambda>(v', w). v' = v \<and> walk adj (v # p) (c - w)) edges)"

definition nonneg_weights :: "'a adjacency \<Rightarrow> bool" where
  "nonneg_weights adj = list_all (\<lambda>(u, edges). list_all (\<lambda>(v, w). 0 \<le> w) edges) adj"

definition targets :: "'a adjacency \<Rightarrow> 'a set" where
  "targets adj = (\<Union>(u, edges) \<in> set adj. fst ` set edges)"

text \<open>A graph is well formed when every node an edge points to is a key.\<close>

definition well_formed :: "'a adjacency \<Rightarrow> bool" where
  "well_formed adj =
     list_all (\<lambda>(u, edges). list_all (\<lambda>(v, w). \<not> Option.is_none (map_of adj v)) edges) adj"

text \<open>The two graphs of the examples below; the second is directed in earnest: the
  edges into node 2 have no edges back.\<close>

definition weighted_graph :: "int adjacency" where
  "weighted_graph = [(0, [(1, 1), (2, 4)]), (1, [(2, 2), (3, 5)]), (2, [(3, 1)]), (3, [])]"

definition directed_graph :: "int adjacency" where
  "directed_graph = [(0, [(1, 10), (2, 1)]), (1, [(2, 1)]), (2, []), (3, [(1, 1), (2, 5)])]"

text \<open>The measures of the heap-based loops: the number of nodes without entry, the
  sum of the entries, the length of the heap, in lexicographic order.\<close>

definition dist_sum :: "'a set \<Rightarrow> ('a \<rightharpoonup> int) \<Rightarrow> nat" where
  "dist_sum N dists = (\<Sum>u\<in>N. case dists u of None \<Rightarrow> 0 | Some d \<Rightarrow> nat d)"

definition search_order :: "((nat \<times> nat \<times> nat) \<times> (nat \<times> nat \<times> nat)) set" where
  "search_order = less_than <*lex*> less_than <*lex*> less_than"

definition dfs_inv :: "'a set \<Rightarrow> ('a \<rightharpoonup> int) \<Rightarrow> (int \<times> 'a) list \<Rightarrow> bool" where
  "dfs_inv N dists pq = (dom dists \<subseteq> N \<and> (\<forall>(d, u) \<in> set pq. 0 \<le> d \<and> u \<in> dom dists))"

definition relax_le ::
  "'a set \<Rightarrow> ('a \<rightharpoonup> int) \<times> (int \<times> 'a) list \<Rightarrow> ('a \<rightharpoonup> int) \<times> (int \<times> 'a) list \<Rightarrow> bool" where
  "relax_le N st' st =
     (st' = st \<or>
      ((card (N - dom (fst st')), dist_sum N (fst st')),
       (card (N - dom (fst st)), dist_sum N (fst st))) \<in> less_than <*lex*> less_than)"

text \<open>\<open>edge adj u v w\<close>: the list \<open>adj[u]\<close> holds the pair \<open>(v, w)\<close>.\<close>

definition edge :: "'a adjacency \<Rightarrow> 'a \<Rightarrow> 'a \<Rightarrow> int \<Rightarrow> bool" where
  "edge adj u v w = (case map_of adj u of None \<Rightarrow> False | Some edges \<Rightarrow> (v, w) \<in> set edges)"

text \<open>The nodes of a graph are its keys and the nodes its edges point to. A heuristic
  is total for a goal when it raises on no node; \<open>h_value\<close> is the number it returns.\<close>

definition nodes :: "'a adjacency \<Rightarrow> 'a set" where
  "nodes adj = fst ` set adj \<union> targets adj"

definition h_value :: "'a heuristic \<Rightarrow> 'a \<Rightarrow> 'a \<Rightarrow> real" where
  "h_value heuristic goal u = (case heuristic u goal of Inl e \<Rightarrow> 0 | Inr x \<Rightarrow> x)"

definition heuristic_total :: "'a adjacency \<Rightarrow> 'a \<Rightarrow> 'a heuristic \<Rightarrow> bool" where
  "heuristic_total adj goal heuristic =
     (\<forall>u \<in> insert goal (nodes adj). \<exists>x. heuristic u goal = Inr x)"

text \<open>The invariants of the A* loop. Every heap entry \<open>(f, g, node, path)\<close> holds a walk
  from the start to \<open>node\<close> of cost \<open>g\<close>, and \<open>f\<close> is \<open>g\<close> plus the estimate for
  \<open>node\<close>. A result is sound when it is the sentinel or a walk from the start to the
  goal with its cost. A node has status \<open>b\<close> when an entry of cost at most \<open>b\<close> waits
  for it or it was expanded at cost at most \<open>b\<close>; the start has status 0, and every
  edge out of an expanded node passes the status on.\<close>

definition a_star_entries ::
  "'a adjacency \<Rightarrow> 'a \<Rightarrow> 'a \<Rightarrow> 'a heuristic \<Rightarrow> (real \<times> int \<times> 'a \<times> 'a list) list \<Rightarrow> bool" where
  "a_star_entries adj start goal heuristic pq =
     (\<forall>(f, g, n, p) \<in> set pq.
        f = real_of_int g + h_value heuristic goal n \<and> walk adj p g \<and> hd p = start \<and> last p = n)"

definition sound_result :: "'a adjacency \<Rightarrow> 'a \<Rightarrow> 'a \<Rightarrow> 'a result \<Rightarrow> bool" where
  "sound_result adj start goal r =
     (r = (None, Infinity) \<or>
      (\<exists>p g. r = (Some p, Cost g) \<and> walk adj p g \<and> hd p = start \<and> last p = goal))"

definition status :: "('a \<rightharpoonup> int) \<Rightarrow> (real \<times> int \<times> 'a \<times> 'a list) list \<Rightarrow> 'a \<Rightarrow> int \<Rightarrow> bool" where
  "status visited pq v b =
     ((\<exists>(f, g, n, p) \<in> set pq. n = v \<and> g \<le> b) \<or> (\<exists>c. visited v = Some c \<and> c \<le> b))"

definition a_star_inv ::
  "'a adjacency \<Rightarrow> 'a \<Rightarrow> 'a \<Rightarrow> 'a heuristic \<Rightarrow> ('a \<rightharpoonup> int) \<Rightarrow> (real \<times> int \<times> 'a \<times> 'a list) list
     \<Rightarrow> bool" where
  "a_star_inv adj start goal heuristic visited pq =
     (a_star_entries adj start goal heuristic pq \<and> visited goal = None \<and>
      status visited pq start 0 \<and>
      (\<forall>n c v w. visited n = Some c \<and> edge adj n v w \<longrightarrow> status visited pq v (c + w)))"

text \<open>An admissible heuristic returns, on every node of the graph, a number \<open>\<ge> 0\<close>
  that no walk from the node to the goal undercuts.\<close>

definition admissible :: "'a adjacency \<Rightarrow> 'a \<Rightarrow> 'a heuristic \<Rightarrow> bool" where
  "admissible adj goal heuristic =
     (\<forall>u \<in> insert goal (nodes adj).
        (\<exists>x. heuristic u goal = Inr x) \<and> 0 \<le> h_value heuristic goal u \<and>
        (\<forall>p c. walk adj p c \<and> hd p = u \<and> last p = goal \<longrightarrow>
           h_value heuristic goal u \<le> real_of_int c))"

text \<open>The heap entry of A* that corresponds to the entry \<open>(cost, node, path)\<close> of
  Dijkstra for the zero heuristic.\<close>

definition a_star_entry :: "int \<times> 'a \<times> 'a list \<Rightarrow> real \<times> int \<times> 'a \<times> 'a list" where
  "a_star_entry e = (real_of_int (fst e), e)"

text \<open>Weak connectivity: the edges of all items of the dict, read in both directions.
  A region is closed when no edge leaves it and all its nodes are keys.\<close>

definition wedges :: "'a adjacency \<Rightarrow> ('a \<times> 'a) list" where
  "wedges adj = concat (map (\<lambda>(u, edges). map (\<lambda>(v, w). (u, v)) edges) adj)"

definition weakly_connected :: "'a adjacency \<Rightarrow> 'a \<Rightarrow> 'a \<Rightarrow> bool" where
  "weakly_connected adj u v =
     (u = v \<or> (u, v) \<in> (set (wedges adj) \<union> (set (wedges adj))\<inverse>)\<^sup>+)"

definition closed_region :: "'a adjacency \<Rightarrow> 'a set \<Rightarrow> bool" where
  "closed_region adj R =
     ((\<forall>u v w. u \<in> R \<and> edge adj u v w \<longrightarrow> v \<in> R) \<and>
      (\<forall>u \<in> R. \<exists>edges. map_of adj u = Some edges))"

text \<open>The invariant of the Bellman-Ford relaxation: the start and every key have a
  distance, and a finite distance belongs to a node connected to the start.\<close>

definition bf_inv :: "'a adjacency \<Rightarrow> 'a \<Rightarrow> ('a \<rightharpoonup> cost) \<Rightarrow> bool" where
  "bf_inv adj start dists =
     (insert start (fst ` set adj) \<subseteq> dom dists \<and>
      (\<forall>v c. dists v = Some (Cost c) \<longrightarrow> weakly_connected adj start v))"

text \<open>The invariant of the flood fill: each node is labelled once, with an id up to
  the current one, and equal ids connect.\<close>

definition comp_inv :: "'a adjacency \<Rightarrow> nat \<Rightarrow> ('a \<times> nat) list \<Rightarrow> bool" where
  "comp_inv adj cid cmp =
     (distinct (map fst cmp) \<and> (\<forall>(v, c) \<in> set cmp. c \<le> cid) \<and>
      (\<forall>u v c. (u, c) \<in> set cmp \<and> (v, c) \<in> set cmp \<longrightarrow> weakly_connected adj u v))"

text \<open>The disconnected graph of the test suite, and a graph with a loop of negative
  weight.\<close>

definition disconnected_graph :: "int adjacency" where
  "disconnected_graph = [(0, [(1, 1)]), (1, []), (2, [(3, 1)]), (3, [])]"

definition negative_loop_graph :: "int adjacency" where
  "negative_loop_graph = [(0, [(0, - 1)]), (1, [])]"



section \<open>Properties\<close>

subsection \<open>Edges and heaps\<close>

lemma finite_targets: "finite (targets adj)"
  by (auto simp: targets_def)

lemma map_of_edge:
  "map_of adj u = Some edges \<Longrightarrow> (u, edges) \<in> set adj"
  by (rule map_of_SomeD)

lemma adj_get_edge:
  assumes "e \<in> set (adj_get adj u)"
  shows "\<exists>edges. map_of adj u = Some edges \<and> e \<in> set edges"
  using assms by (cases "map_of adj u") (simp_all add: adj_get_def)

lemma edge_target:
  assumes "map_of adj u = Some edges" "(v, w) \<in> set edges"
  shows "v \<in> targets adj"
proof -
  from assms(1) have "(u, edges) \<in> set adj" by (rule map_of_SomeD)
  moreover have "v \<in> fst ` set edges" using assms(2) by force
  ultimately show ?thesis unfolding targets_def by blast
qed

lemma edge_nonneg:
  assumes "nonneg_weights adj" "map_of adj u = Some edges" "(v, w) \<in> set edges"
  shows "0 \<le> w"
proof -
  from assms(2) have "(u, edges) \<in> set adj" by (rule map_of_SomeD)
  with assms(1) have "list_all (\<lambda>(v, w). 0 \<le> w) edges"
    unfolding nonneg_weights_def list_all_iff by blast
  with assms(3) show ?thesis unfolding list_all_iff by blast
qed

lemma wf_search_order: "wf search_order"
  by (simp add: search_order_def wf_lex_prod)

lemma search_induct [case_names step]:
  "(\<And>x. (\<And>y. (y, x) \<in> search_order \<Longrightarrow> P y) \<Longrightarrow> P x) \<Longrightarrow> P a"
  using wf_search_order by (rule wf_induct_rule) blast


lemma relax_le_trans: "relax_le N st2 st1 \<Longrightarrow> relax_le N st1 st0 \<Longrightarrow> relax_le N st2 st0"
  unfolding relax_le_def by auto

lemma dist_sum_update:
  assumes "finite N" "v \<in> N" "dists v = Some dv" "0 \<le> nd" "nd < dv"
  shows "dist_sum N (dists(v \<mapsto> nd)) < dist_sum N dists"
proof -
  let ?f = "\<lambda>m u. case m u of None \<Rightarrow> 0 | Some d \<Rightarrow> nat d"
  have "sum (?f (dists(v \<mapsto> nd))) N < sum (?f dists) N"
  proof (rule sum_strict_mono_ex1)
    show "finite N" by fact
    show "\<forall>u\<in>N. ?f (dists(v \<mapsto> nd)) u \<le> ?f dists u"
      using assms by auto
    show "\<exists>u\<in>N. ?f (dists(v \<mapsto> nd)) u < ?f dists u"
      using assms by (intro bexI[of _ v]) auto
  qed
  then show ?thesis by (simp add: dist_sum_def)
qed

lemma relax_one:
  assumes "dfs_inv N dists pq" "0 \<le> d" "0 \<le> w" "v \<in> N" "finite N"
  defines "st' \<equiv> (let nd = d + w in
            if (case dists v of None \<Rightarrow> True | Some dv \<Rightarrow> nd < dv)
            then (dists(v \<mapsto> nd), heappush pq (nd, v)) else (dists, pq))"
  shows "dfs_inv N (fst st') (snd st') \<and> relax_le N st' (dists, pq)"
proof (cases "dists v")
  case None
  then have st': "st' = (dists(v \<mapsto> d + w), (d + w, v) # pq)"
    by (simp add: st'_def heappush_def Let_def)
  have "v \<in> N - dom dists" using None assms(4) by auto
  then have "card (N - dom (dists(v \<mapsto> d + w))) < card (N - dom dists)"
    using \<open>finite N\<close> by (intro psubset_card_mono) auto
  then have "relax_le N st' (dists, pq)" by (simp add: relax_le_def st')
  moreover have "dfs_inv N (fst st') (snd st')"
    using assms(1-4) unfolding st' dfs_inv_def by auto
  ultimately show ?thesis by simp
next
  case (Some dv)
  show ?thesis
  proof (cases "d + w < dv")
    case False
    with Some have "st' = (dists, pq)" by (simp add: st'_def Let_def)
    then show ?thesis using assms(1) by (simp add: relax_le_def)
  next
    case True
    with Some have st': "st' = (dists(v \<mapsto> d + w), (d + w, v) # pq)"
      by (simp add: st'_def heappush_def Let_def)
    have "dom (dists(v \<mapsto> d + w)) = dom dists" using Some by auto
    moreover have "dist_sum N (dists(v \<mapsto> d + w)) < dist_sum N dists"
      using assms Some True by (intro dist_sum_update) auto
    ultimately have "relax_le N st' (dists, pq)" by (simp add: relax_le_def st')
    moreover have "dfs_inv N (fst st') (snd st')"
      using assms(1-4) unfolding st' dfs_inv_def by auto
    ultimately show ?thesis by simp
  qed
qed

lemma relax_from_inv:
  assumes "finite N" "0 \<le> d"
  shows "dfs_inv N dists pq \<Longrightarrow> \<forall>(v, w) \<in> set edges. 0 \<le> w \<and> v \<in> N \<Longrightarrow>
    dfs_inv N (fst (relax_from d edges (dists, pq))) (snd (relax_from d edges (dists, pq))) \<and>
    relax_le N (relax_from d edges (dists, pq)) (dists, pq)"
proof (induction edges arbitrary: dists pq)
  case Nil
  then show ?case by (simp add: relax_from_def relax_le_def)
next
  case (Cons e edges)
  obtain v w where e: "e = (v, w)" by (cases e)
  define st' where "st' = (let nd = d + w in
            if (case dists v of None \<Rightarrow> True | Some dv \<Rightarrow> nd < dv)
            then (dists(v \<mapsto> nd), heappush pq (nd, v)) else (dists, pq))"
  have step: "relax_from d (e # edges) (dists, pq) = relax_from d edges st'"
    by (simp add: relax_from_def e st'_def)
  from Cons.prems e have "0 \<le> w" "v \<in> N" by auto
  from relax_one[OF Cons.prems(1) assms(2) this assms(1)]
  have one: "dfs_inv N (fst st') (snd st')" "relax_le N st' (dists, pq)"
    unfolding st'_def by simp_all
  from Cons.prems(2) have rest: "\<forall>(v, w) \<in> set edges. 0 \<le> w \<and> v \<in> N" by simp
  from Cons.IH[OF _ rest, of "fst st'" "snd st'"] one(1)
  have "dfs_inv N (fst (relax_from d edges st')) (snd (relax_from d edges st'))"
    "relax_le N (relax_from d edges st') st'"
    by simp_all
  with one(2) show ?case unfolding step by (auto intro: relax_le_trans)
qed

lemma heappop_member:
  "pq \<noteq> [] \<Longrightarrow> heappop pq = (e, pq') \<Longrightarrow> e \<in> set pq \<and> pq' = remove1 e pq \<and> (\<forall>x \<in> set pq. e \<le> x)"
  by (auto simp: heappop_def min_list_Min)

lemma length_remove1_less: "e \<in> set pq \<Longrightarrow> length (remove1 e pq) < length pq"
  using length_pos_if_in_set[of e pq] by (simp add: length_remove1)

lemma dijkstra_from_source_loop_total:
  assumes "finite N" "targets adj \<subseteq> N" "nonneg_weights adj"
  shows "dfs_inv N dists pq \<Longrightarrow> \<exists>r. dijkstra_from_source_loop adj dists pq = Some (Inr r)"
proof (induction "(card (N - dom dists), dist_sum N dists, length pq)" arbitrary: dists pq
    rule: search_induct)
  case step
  show ?case
  proof (cases "pq = []")
    case True
    then show ?thesis by (subst dijkstra_from_source_loop.simps) simp
  next
    case False
    obtain d u pq' where pop: "heappop pq = ((d, u), pq')" by (metis prod.exhaust)
    from heappop_member[OF False pop]
    have mem: "(d, u) \<in> set pq" and pq': "pq' = remove1 (d, u) pq" by simp_all
    from step.prems mem obtain du where du: "dists u = Some du" and d0: "0 \<le> d"
      unfolding dfs_inv_def by fastforce
    have inv': "dfs_inv N dists pq'"
      using step.prems set_remove1_subset[of "(d, u)" pq] unfolding dfs_inv_def pq' by blast
    have shorter: "length pq' < length pq" unfolding pq' using mem by (rule length_remove1_less)
    show ?thesis
    proof (cases "du < d")
      case True
      have "\<exists>r. dijkstra_from_source_loop adj dists pq' = Some (Inr r)"
        by (rule step.hyps[OF _ inv']) (simp add: search_order_def shorter)
      then show ?thesis
        using False pop du True by (subst dijkstra_from_source_loop.simps) simp
    next
      case nless: False
      obtain dists' pq'' where rel: "relax_from d (adj_get adj u) (dists, pq') = (dists', pq'')"
        by (metis prod.exhaust)
      have edges: "\<forall>(v, w) \<in> set (adj_get adj u). 0 \<le> w \<and> v \<in> N"
      proof (clarify)
        fix v w assume "(v, w) \<in> set (adj_get adj u)"
        from adj_get_edge[OF this]
        obtain edges where ed: "map_of adj u = Some edges" "(v, w) \<in> set edges"
          by blast
        from edge_nonneg[OF assms(3) ed] edge_target[OF ed] assms(2)
        show "0 \<le> w \<and> v \<in> N" by blast
      qed
      from relax_from_inv[OF assms(1) d0 inv' edges] rel
      have inv'': "dfs_inv N dists' pq''" and le: "relax_le N (dists', pq'') (dists, pq')"
        by simp_all
      from le shorter
      have "((card (N - dom dists'), dist_sum N dists', length pq''),
             (card (N - dom dists), dist_sum N dists, length pq)) \<in> search_order"
        unfolding relax_le_def search_order_def by auto
      from step.hyps[OF this inv'']
      have "\<exists>r. dijkstra_from_source_loop adj dists' pq'' = Some (Inr r)" .
      then show ?thesis
        using False pop du nless rel by (subst dijkstra_from_source_loop.simps) simp
    qed
  qed
qed

lemma dijkstra_from_source_total:
  assumes "nonneg_weights adj"
  shows "\<exists>r. dijkstra_from_source adj src = Some (Inr r)"
  unfolding dijkstra_from_source_def
  by (rule dijkstra_from_source_loop_total[of "insert src (targets adj)"])
     (use assms in \<open>auto simp: finite_targets dfs_inv_def\<close>)

subsection \<open>The wrapper on a query from a node to itself\<close>

text \<open>
  C6. For every graph, every node \<open>s\<close> and every index (also none),
  \<open>find_path(graph, s, s, index)\<close> returns the path \<open>[s]\<close> with cost 0. The result
  does not depend on the graph or the index: neither the selector nor a search runs,
  so a graph in which \<open>s\<close> has no outgoing edges, or is no key at all, gives the same.
\<close>

theorem find_path_same_node:
  "find_path adj s s index = Some (Inr (Some [s], Cost 0))"
  by (simp add: find_path_def)

subsection \<open>The reachability check\<close>

text \<open>
  C3, as the code has it. The check answers false exactly when the index has a
  component map in which the lookups of \<open>s\<close> and \<open>g\<close> differ: both nodes present with
  different component ids, or exactly one of them present. It answers true without
  index, without map, on the empty map, when both nodes are absent and when both
  carry the same id.
\<close>

theorem reachable_false_iff:
  "(\<not> reachable index s g) =
   (\<exists>idx cmp. index = Some idx \<and> weak_components idx = Some cmp \<and>
      ((\<exists>a b. map_of cmp s = Some a \<and> map_of cmp g = Some b \<and> a \<noteq> b) \<or>
       (map_of cmp s = None \<and> map_of cmp g \<noteq> None) \<or>
       (map_of cmp s \<noteq> None \<and> map_of cmp g = None)))"
proof (cases index)
  case None
  then show ?thesis by (simp add: reachable_def)
next
  case (Some idx)
  show ?thesis
  proof (cases "weak_components idx")
    case None
    with Some show ?thesis by (simp add: reachable_def)
  next
    case (Some cmp)
    then have ne: "\<not> index_is_empty idx" by (simp add: index_is_empty_def)
    have "(map_of cmp s \<noteq> map_of cmp g) =
      ((\<exists>a b. map_of cmp s = Some a \<and> map_of cmp g = Some b \<and> a \<noteq> b) \<or>
       (map_of cmp s = None \<and> map_of cmp g \<noteq> None) \<or>
       (map_of cmp s \<noteq> None \<and> map_of cmp g = None))"
      by (cases "map_of cmp s"; cases "map_of cmp g") auto
    moreover have "cmp = [] \<Longrightarrow> map_of cmp s = map_of cmp g" by simp
    ultimately show ?thesis
      using \<open>index = Some idx\<close> Some ne by (auto simp: reachable_def)
  qed
qed

text \<open>
  C3 as stated fails: with the component map \<open>{0: 1}\<close> the node 5 is absent from
  the map, and the check for \<open>(0, 5)\<close> answers false (\<open>comp.get(0) == comp.get(5)\<close>
  compares \<open>1\<close> with \<open>None\<close>).
\<close>

theorem reachable_absent_node_counterexample:
  "map_of [(0::int, 1::nat)] 5 = None \<and>
   \<not> reachable (Some (empty_index\<lparr>weak_components := Some [(0::int, 1)]\<rparr>)) 0 5"
  by (simp add: reachable_def empty_index_def index_is_empty_def)

subsection \<open>The cost of the depth-first searches\<close>

lemma dfs_loop_cost:
  "dfs_loop adj goal visited stack = Inr (Some p, c) \<Longrightarrow> c = Cost (int (length p) - 1)"
  by (induction adj goal visited stack rule: dfs_loop.induct)
     (auto split: if_splits option.splits)

text \<open>
  C10. Whenever \<open>dfs\<close> or \<open>depth_limited_dfs\<close> returns a path, the cost it returns is
  the number of edges of that path, its length minus one, whatever the weights are.
\<close>

theorem dfs_cost_is_hop_count:
  "(dfs adj s g = Inr (Some p, c) \<longrightarrow> c = Cost (int (length p) - 1)) \<and>
   (depth_limited_dfs frames adj s g limit = Inr (Some p', c') \<longrightarrow>
      c' = Cost (int (length p') - 1))"
  by (auto simp: dfs_def depth_limited_dfs_def dest: dfs_loop_cost
           split: sum.splits option.splits)

text \<open>
  On the weighted graph of the test suite, \<open>{0: [(1,1),(2,4)], 1: [(2,2),(3,5)],
  2: [(3,1)], 3: []}\<close>, \<open>dfs\<close> returns \<open>[0, 2, 3]\<close> (edge weights 4 and 1) with cost 2
  and the depth-limited search \<open>[0, 1, 2, 3]\<close> (weights 1, 2, 1) with cost 3.
\<close>

lemma dfs_weighted_graph: "dfs weighted_graph 0 3 = Inr (Some [0, 2, 3], Cost 2)"
  by code_simp

lemma depth_limited_dfs_weighted_graph:
  "depth_limited_dfs 100 weighted_graph 0 3 5 = Inr (Some [0, 1, 2, 3], Cost 3)"
  by code_simp

theorem dfs_cost_is_hop_count_witness:
  "dfs weighted_graph 0 3 = Inr (Some [0, 2, 3], Cost 2) \<and>
   Cost 2 = Cost (int (length [0::int, 2, 3]) - 1) \<and>
   depth_limited_dfs 100 weighted_graph 0 3 5 = Inr (Some [0, 1, 2, 3], Cost 3) \<and>
   Cost 3 = Cost (int (length [0::int, 1, 2, 3]) - 1)"
  using dfs_cost_is_hop_count[of weighted_graph 0 3 "[0, 2, 3]" "Cost 2" 100 5
          "[0, 1, 2, 3]" "Cost 3"]
    dfs_weighted_graph depth_limited_dfs_weighted_graph
  by simp

subsection \<open>The heuristics and the shapes of their arguments\<close>

lemma haversine_arg:
  fixes l1 l2 y :: real
  shows "0 \<le> (sin ((l2 - l1) / 2))\<^sup>2 + cos l1 * cos l2 * (sin y)\<^sup>2 \<and>
         (sin ((l2 - l1) / 2))\<^sup>2 + cos l1 * cos l2 * (sin y)\<^sup>2 \<le> 1"
proof -
  define t where "t = (sin y)\<^sup>2"
  define p where "p = (sin ((l2 - l1) / 2))\<^sup>2"
  define q where "q = (cos ((l1 + l2) / 2))\<^sup>2"
  have e1: "2 * ((l2 - l1) / 2) = l2 - l1" and e2: "2 * ((l1 + l2) / 2) = l2 + l1"
    by (simp_all add: field_simps)
  have c1: "cos (l2 - l1) = 1 - 2 * p"
    using cos_double_sin[of "(l2 - l1) / 2"] unfolding e1 p_def .
  have c2: "cos (l2 + l1) = 2 * q - 1"
    using cos_double_cos[of "(l1 + l2) / 2"] unfolding e2 q_def .
  have "cos l2 * cos l1 = (cos (l2 - l1) + cos (l2 + l1)) / 2" by (rule cos_times_cos)
  then have cc: "cos l1 * cos l2 = q - p" unfolding c1 c2 by (simp add: mult.commute)
  have t: "0 \<le> t" "t \<le> 1" and p: "0 \<le> p" "p \<le> 1" and q: "0 \<le> q" "q \<le> 1"
    by (simp_all add: t_def p_def q_def abs_square_le_1)
  have a: "p + cos l1 * cos l2 * t = (1 - t) * p + t * q"
    unfolding cc by (simp add: algebra_simps)
  have "0 \<le> (1 - t) * p + t * q" using t p q by simp
  moreover have "(1 - t) * p + t * q \<le> (1 - t) * 1 + t * 1"
    using t p q by (intro add_mono mult_left_mono) simp_all
  ultimately show ?thesis unfolding p_def[symmetric] t_def[symmetric] a by simp
qed

lemma manhattan_shapes:
  "if is_int u \<and> is_int v \<or> is_pair u \<and> is_pair v
   then \<exists>r\<ge>0. manhattan u v = Inr r else manhattan u v = Inl TypeError"
  by (cases "(u, v)" rule: manhattan.cases) auto

lemma euclidean_shapes:
  "if is_int u \<and> is_int v \<or> is_pair u \<and> is_pair v
   then \<exists>r\<ge>0. euclidean u v = Inr r else euclidean u v = Inl TypeError"
  by (cases "(u, v)" rule: euclidean.cases) auto

lemma chebyshev_shapes:
  "if is_int u \<and> is_int v \<or> is_pair u \<and> is_pair v
   then \<exists>r\<ge>0. chebyshev u v = Inr r else chebyshev u v = Inl TypeError"
  by (cases "(u, v)" rule: chebyshev.cases) auto

lemma octile_shapes:
  "if is_int u \<and> is_int v \<or> is_pair u \<and> is_pair v
   then \<exists>r\<ge>0. octile u v = Inr r else octile u v = Inl TypeError"
proof -
  have "0 \<le> max dx dy + (sqrt 2 - 1) * min dx dy" if "0 \<le> dx" "0 \<le> dy" for dx dy :: real
  proof -
    have "0 \<le> (sqrt 2 - 1) * min dx dy" using that by (intro mult_nonneg_nonneg) auto
    then show ?thesis using that by (simp add: max_def)
  qed
  then show ?thesis
    by (cases "(u, v)" rule: octile.cases) (auto simp: Let_def)
qed

lemma haversine_shapes:
  "if is_pair u \<and> is_pair v
   then \<exists>r\<ge>0. haversine u v = Inr r else haversine u v = Inl TypeError"
proof (cases "(u, v)" rule: haversine.cases)
  case (1 u0 u1 v0 v1)
  define a where "a = (sin ((radians v0 - radians u0) / 2))\<^sup>2 +
      cos (radians u0) * cos (radians v0) * (sin ((radians v1 - radians u1) / 2))\<^sup>2"
  have a: "0 \<le> a" "a \<le> 1" unfolding a_def using haversine_arg by blast+
  then have "0 \<le> sqrt a" "sqrt a \<le> 1" by simp_all
  then have "0 \<le> arcsin (sqrt a)" by (simp add: arcsin_nonneg)
  then have "0 \<le> 2 * 6371 * arcsin (sqrt a)" by simp
  moreover have "haversine u v = Inr (2 * 6371 * arcsin (sqrt a))"
    using 1 a by (simp add: Let_def a_def)
  ultimately show ?thesis using 1 by simp
qed auto

text \<open>
  C9, as the code has it. Manhattan, Euclidean, Chebyshev and octile return a real
  number \<open>\<ge> 0\<close> on two integers and on two tuples of length 2, and raise \<open>TypeError\<close>
  on every other pair of shapes; haversine returns a real number \<open>\<ge> 0\<close> on two
  tuples of length 2 and raises \<open>TypeError\<close> on every other pair; the zero heuristic
  returns 0 on every pair of arguments and never raises.
\<close>

theorem heuristics_by_shape:
  "(if is_int u \<and> is_int v \<or> is_pair u \<and> is_pair v
    then (\<exists>r\<ge>0. manhattan u v = Inr r) \<and> (\<exists>r\<ge>0. euclidean u v = Inr r) \<and>
         (\<exists>r\<ge>0. chebyshev u v = Inr r) \<and> (\<exists>r\<ge>0. octile u v = Inr r)
    else manhattan u v = Inl TypeError \<and> euclidean u v = Inl TypeError \<and>
         chebyshev u v = Inl TypeError \<and> octile u v = Inl TypeError) \<and>
   (if is_pair u \<and> is_pair v then \<exists>r\<ge>0. haversine u v = Inr r
    else haversine u v = Inl TypeError) \<and>
   zero_heuristic u' v' = Inr 0"
  using manhattan_shapes[of u v] euclidean_shapes[of u v] chebyshev_shapes[of u v]
    octile_shapes[of u v] haversine_shapes[of u v]
  by (simp add: zero_heuristic_def split: if_splits)

theorem heuristics_by_shape_witness:
  "(\<exists>r\<ge>0. manhattan (Tuple [0, 0]) (Tuple [3, 4]) = Inr r) \<and>
   (\<exists>r\<ge>0. haversine (Tuple [0, 0]) (Tuple [3, 4]) = Inr r) \<and>
   euclidean (Scalar 3) (Tuple [1, 2]) = Inl TypeError \<and>
   haversine (Scalar 3) (Scalar 4) = Inl TypeError"
  using heuristics_by_shape[of "Tuple [0, 0]" "Tuple [3, 4]" "0::int" 0]
    heuristics_by_shape[of "Scalar 3" "Tuple [1, 2]" "0::int" 0]
    heuristics_by_shape[of "Scalar 3" "Scalar 4" "0::int" 0]
  by (simp del: manhattan.simps euclidean.simps chebyshev.simps octile.simps haversine.simps)

text \<open>
  C9 as stated fails for the zero heuristic: on an integer and a coordinate pair,
  shapes that do not match, it returns the number 0 and raises nothing.
\<close>

theorem zero_heuristic_mismatch_counterexample:
  "\<not> (is_int (Scalar 3) \<and> is_int (Tuple [1, 2]) \<or> is_pair (Scalar 3) \<and> is_pair (Tuple [1, 2])) \<and>
   zero_heuristic (Scalar 3) (Tuple [1, 2]) = Inr 0"
  by (simp add: zero_heuristic_def)

subsection \<open>Landmark selection\<close>

lemma max_from_mem: "max_from lt key best xs \<in> set (best # xs)"
  by (induction xs arbitrary: best) auto


text \<open>The node \<open>far\<close> of a round is a candidate whose distance in the table of the
  round is greatest (an absent entry counts as infinite).\<close>

lemma cost_less_trans: "\<not> cost_less a b \<Longrightarrow> \<not> cost_less b c \<Longrightarrow> \<not> cost_less a c"
  by (cases a; cases b; cases c) auto

lemma max_from_cost_greatest:
  "x \<in> set (best # xs) \<Longrightarrow> \<not> cost_less (key (max_from cost_less key best xs)) (key x)"
proof (induction xs arbitrary: best x)
  case Nil
  then show ?case by (cases "key best") auto
next
  case (Cons y ys)
  show ?case
  proof (cases "cost_less (key best) (key y)")
    case True
    have y: "\<not> cost_less (key (max_from cost_less key y ys)) (key y)" by (rule Cons.IH) simp
    have "\<not> cost_less (key y) (key best)" using True by (cases "key best"; cases "key y") auto
    with y have "\<not> cost_less (key (max_from cost_less key y ys)) (key best)"
      by (rule cost_less_trans)
    moreover have "x \<in> set (y # ys) \<Longrightarrow> \<not> cost_less (key (max_from cost_less key y ys)) (key x)"
      by (rule Cons.IH)
    ultimately show ?thesis using True Cons.prems by (cases "x = best") auto
  next
    case False
    have b: "\<not> cost_less (key (max_from cost_less key best ys)) (key best)" by (rule Cons.IH) simp
    from b False have "\<not> cost_less (key (max_from cost_less key best ys)) (key y)"
      by (rule cost_less_trans)
    moreover have "x \<in> set (best # ys) \<Longrightarrow> \<not> cost_less (key (max_from cost_less key best ys)) (key x)"
      by (rule Cons.IH)
    ultimately show ?thesis using False Cons.prems by (cases "x = y") auto
  qed
qed

lemma farthest_greatest:
  assumes "farthest adj u = Some (Inr far)" "dijkstra_from_source adj u = Some (Inr dists)"
  shows "far \<in> set (candidate_pool adj) \<and>
         (\<forall>c \<in> set (candidate_pool adj). \<not> cost_less (dist_get dists far) (dist_get dists c))"
proof (cases "candidate_pool adj")
  case Nil
  with assms show ?thesis by (simp add: farthest_def py_max_def)
next
  case (Cons c cs)
  with assms have far: "far = max_from cost_less (dist_get dists) c cs"
    by (simp add: farthest_def py_max_def)
  show ?thesis unfolding far Cons using max_from_mem[of cost_less "dist_get dists" c cs]
      max_from_cost_greatest[of _ c cs "dist_get dists"] by blast
qed










lemma nonneg_weighted_graph: "nonneg_weights weighted_graph"
  by code_simp








subsection \<open>Graphs with an edge to a node that is no key\<close>

lemma dijkstra_from_source_loop_adj_get:
  assumes "dijkstra_from_source_loop adj dists pq = Some y"
  shows "(\<forall>u. adj_get adj u = adj_get adj' u) \<longrightarrow>
         dijkstra_from_source_loop adj' dists pq = Some y"
  using assms
proof (induct rule: dijkstra_from_source_loop.raw_induct[rotated 1, consumes 1, case_names step])
  case (step loop adj dists pq y)
  show ?case
  proof
    assume eq: "\<forall>u. adj_get adj u = adj_get adj' u"
    show "dijkstra_from_source_loop adj' dists pq = Some y"
    proof (cases "pq = []")
      case True
      with step(2) show ?thesis by (subst dijkstra_from_source_loop.simps) simp
    next
      case False
      obtain d u pq' where pop: "heappop pq = ((d, u), pq')" by (metis prod.exhaust)
      show ?thesis
      proof (cases "dists u")
        case None
        with step(2) False pop show ?thesis by (subst dijkstra_from_source_loop.simps) simp
      next
        case (Some du)
        show ?thesis
        proof (cases "du < d")
          case True
          with step(2) False pop Some have "loop adj dists pq' = Some y" by simp
          from step(1)[OF this] eq True False pop Some
          show ?thesis by (subst dijkstra_from_source_loop.simps) simp
        next
          case nless: False
          obtain dists' pq'' where rel: "relax_from d (adj_get adj u) (dists, pq') = (dists', pq'')"
            by (metis prod.exhaust)
          with step(2) False pop Some nless have "loop adj dists' pq'' = Some y" by simp
          from step(1)[OF this] rel nless False pop Some eq
          show ?thesis by (subst dijkstra_from_source_loop.simps) simp
        qed
      qed
    qed
  qed
qed

lemma dijkstra_from_source_adj_get:
  assumes "\<And>u. adj_get adj u = adj_get adj' u"
  shows "dijkstra_from_source adj src = dijkstra_from_source adj' src"
proof (cases "dijkstra_from_source adj src")
  case (Some y)
  then show ?thesis
    using dijkstra_from_source_loop_adj_get[of adj _ _ y adj'] assms
    by (simp add: dijkstra_from_source_def)
next
  case None
  show ?thesis
  proof (cases "dijkstra_from_source adj' src")
    case None
    with \<open>dijkstra_from_source adj src = None\<close> show ?thesis by simp
  next
    case (Some y)
    then have "dijkstra_from_source adj src = Some y"
      using dijkstra_from_source_loop_adj_get[of adj' _ _ y adj] assms
      by (simp add: dijkstra_from_source_def)
    with None show ?thesis by simp
  qed
qed

lemma adj_get_absent_key:
  assumes "map_of adj v = None"
  shows "adj_get (adj @ [(v, [])]) u = adj_get adj u"
  using assms by (cases "map_of adj u") (auto simp: adj_get_def map_add_def)

lemma bfs_loop_absent:
  "node \<noteq> goal \<Longrightarrow> node \<notin> visited \<Longrightarrow> map_of adj node = None \<Longrightarrow>
   bfs_loop adj goal visited ((node, path) # queue) = Inl KeyError"
  by simp

lemma dfs_loop_absent:
  "node \<noteq> goal \<Longrightarrow> node \<notin> visited \<Longrightarrow> map_of adj node = None \<Longrightarrow>
   dfs_loop adj goal visited ((node, path) # stack) = Inl KeyError"
  by simp

lemma dijkstra_loop_absent:
  "pq \<noteq> [] \<Longrightarrow> heappop pq = ((cost, node, path), pq') \<Longrightarrow> node \<noteq> goal \<Longrightarrow>
   (\<forall>c. best node = Some c \<longrightarrow> cost < c) \<Longrightarrow> map_of adj node = None \<Longrightarrow>
   dijkstra_loop adj goal best pq = Some (Inl KeyError)"
  by (subst dijkstra_loop.simps) (auto split: option.splits)

lemma a_star_loop_absent:
  "pq \<noteq> [] \<Longrightarrow> heappop pq = ((f, g, node, path), pq') \<Longrightarrow> node \<noteq> goal \<Longrightarrow>
   (\<forall>c. best node = Some c \<longrightarrow> g < c) \<Longrightarrow> map_of adj node = None \<Longrightarrow>
   a_star_loop adj heuristic goal best pq = Some (Inl KeyError)"
  by (subst a_star_loop.simps) (auto split: option.splits)

lemma greedy_loop_absent:
  "pq \<noteq> [] \<Longrightarrow> heappop pq = ((hv, node, path, cost), pq') \<Longrightarrow> node \<noteq> goal \<Longrightarrow>
   node \<notin> visited \<Longrightarrow> map_of adj node = None \<Longrightarrow>
   greedy_loop adj heuristic goal visited pq = Inl KeyError"
  by (subst greedy_loop.simps) (auto split: option.splits)

text \<open>
  C4, as the code has it. \<open>dijkstra_from_source\<close> reads the edges with
  \<open>adj.get(u, [])\<close>: a node that is no key counts as a node without outgoing edges
  (the result is that of the graph with the key added and an empty edge list), and on
  non-negative weights the function returns its table without error. The searches of
  algorithms.py read \<open>adj[node]\<close>: when \<open>bfs\<close>, \<open>dfs\<close>, \<open>dijkstra\<close>, \<open>greedy_best\<close>
  or \<open>a_star\<close> takes such a node from its queue, the node is not the goal and was not
  expanded before, the search ends with \<open>KeyError\<close>.
\<close>

theorem absent_node_policy:
  "(map_of adj v = None \<longrightarrow>
      dijkstra_from_source (adj @ [(v, [])]) src = dijkstra_from_source adj src) \<and>
   (nonneg_weights adj \<longrightarrow> (\<exists>dists. dijkstra_from_source adj src = Some (Inr dists))) \<and>
   (node \<noteq> goal \<and> map_of adj node = None \<longrightarrow>
      (node \<notin> visited \<longrightarrow>
         bfs_loop adj goal visited ((node, path) # queue) = Inl KeyError \<and>
         dfs_loop adj goal visited ((node, path) # queue) = Inl KeyError \<and>
         (hq \<noteq> [] \<and> heappop hq = ((hv, node, path, cost), hq') \<longrightarrow>
            greedy_loop adj heuristic goal visited hq = Inl KeyError)) \<and>
      ((\<forall>c. best node = Some c \<longrightarrow> cost < c) \<longrightarrow>
         (pq \<noteq> [] \<and> heappop pq = ((cost, node, path), pq') \<longrightarrow>
            dijkstra_loop adj goal best pq = Some (Inl KeyError)) \<and>
         (aq \<noteq> [] \<and> heappop aq = ((f, cost, node, path), aq') \<longrightarrow>
            a_star_loop adj heuristic goal best aq = Some (Inl KeyError))))"
  using dijkstra_from_source_adj_get[of "adj @ [(v, [])]" adj src] adj_get_absent_key[of adj v]
    dijkstra_from_source_total[of adj src]
    greedy_loop_absent[of hq hv node path cost hq' goal visited adj heuristic]
    dijkstra_loop_absent[of pq cost node path pq' goal best adj]
    a_star_loop_absent[of aq f cost node path aq' goal best adj heuristic]
  by (simp del: greedy_loop.simps)

theorem absent_node_policy_witness:
  "dijkstra_from_source ([(0::int, [(1, 1)])] @ [(1, [])]) 0 = dijkstra_from_source [(0, [(1, 1)])] 0 \<and>
   (\<exists>dists. dijkstra_from_source [(0::int, [(1, 1)])] 0 = Some (Inr dists)) \<and>
   bfs_loop [(0::int, [(1, 1)])] 2 {0} [(1, [0, 1])] = Inl KeyError \<and>
   dfs_loop [(0::int, [(1, 1)])] 2 {0} [(1, [0, 1])] = Inl KeyError \<and>
   greedy_loop [(0::int, [(1, 1)])] zero_heuristic 2 {0} [(0, 1, [0, 1], 1)] = Inl KeyError \<and>
   dijkstra_loop [(0::int, [(1, 1)])] 2 [0 \<mapsto> 0] [(1, 1, [0, 1])] = Some (Inl KeyError) \<and>
   a_star_loop [(0::int, [(1, 1)])] zero_heuristic 2 [0 \<mapsto> 0] [(1, 1, 1, [0, 1])]
     = Some (Inl KeyError)"
  using absent_node_policy[where adj = "[(0::int, [(1, 1)])]" and v = 1 and src = 0
      and node = 1 and goal = 2 and visited = "{0}" and path = "[0, 1]" and queue = "[]"
      and hq = "[(0, 1, [0, 1], 1)]" and hv = 0 and cost = 1 and hq' = "[]"
      and heuristic = zero_heuristic and best = "[0 \<mapsto> 0]"
      and pq = "[(1, 1, [0, 1])]" and pq' = "[]"
      and aq = "[(1, 1, 1, [0, 1])]" and f = 1 and aq' = "[]"]
  by (simp add: heappop_def nonneg_weights_def del: greedy_loop.simps)

text \<open>
  C4 as stated fails. In \<open>{0: [(1, 1)]}\<close> the edge of node 0 points to node 1, which
  is no key. \<open>bfs\<close> and \<open>dijkstra\<close> from 0 to 2 take node 1 from the queue and end
  with \<open>KeyError\<close> at \<open>adj[1]\<close>; they return no (path, cost).
\<close>

theorem absent_node_key_error_counterexample:
  "map_of [(0::int, [(1::int, 1::int)])] 1 = None \<and>
   bfs [(0::int, [(1, 1)])] 0 2 = Inl KeyError \<and>
   dijkstra [(0::int, [(1, 1)])] 0 2 = Some (Inl KeyError)"
  by code_simp

subsection \<open>The ALT heuristic on directed graphs\<close>

text \<open>
  C2 fails on the code. In the directed graph \<open>{0: [(1,10),(2,1)], 1: [(2,1)], 2: [],
  3: [(1,1),(2,5)]}\<close> with the landmark 0, the tables of \<open>build_tables\<close> hold
  \<open>d(0,1) = 10\<close> and \<open>d(0,2) = 1\<close>, and the heuristic for the goal 2 estimates node 1
  at \<open>|1 - 10| = 9\<close>, while the edge from 1 to 2 is a walk of cost 1. The triangle
  inequality bounds \<open>d(L,t) - d(L,u)\<close> by \<open>d(u,t)\<close>; the absolute value also takes
  \<open>d(L,u) - d(L,t)\<close>, which it bounds by \<open>d(t,u)\<close> only.
\<close>

theorem alt_heuristic_overestimates:
  "(case build_tables directed_graph [0] of
      Some (Inr (fwd, bwd)) \<Rightarrow> alt_heuristic_factory 2 fwd bwd 1 2
    | _ \<Rightarrow> Inl KeyError) = Inr 9 \<and>
   nonneg_weights directed_graph \<and> walk directed_graph [1, 2] 1"
  by code_simp

subsection \<open>The strategy chosen for an index with landmarks\<close>

text \<open>
  C5 fails on the code in its first case. For the weighted test graph and an index
  that carries the landmark \<open>[0]\<close> and the tables \<open>build_tables\<close> gives for it,
  \<open>find_path\<close> from 0 to 3 reaches the closure that \<open>choose_algorithm\<close> returns for
  an index with landmarks, and the closure raises \<open>NameError\<close>: A* with the ALT
  heuristic, which would return the path \<open>[0, 1, 2, 3]\<close> of cost 4, never runs.
\<close>

theorem alt_strategy_name_error:
  "(case build_tables weighted_graph [0] of
      Some (Inr (fwd, bwd)) \<Rightarrow>
        (let idx = empty_index\<lparr>uniform_weights := Some False, node_count := Some 4,
                     landmarks := Some [0], dist_L_to_v := Some fwd, dist_v_to_L := Some bwd\<rparr>
         in (choose_algorithm weighted_graph (Some idx) weighted_graph 0 3,
             find_path weighted_graph 0 3 (Some idx),
             a_star_alt idx weighted_graph 0 3))
    | _ \<Rightarrow> (None, None, None)) =
   (Some (Inl NameError), Some (Inl NameError), Some (Inr (Some [0, 1, 2, 3], Cost 4)))"
  by code_simp

text \<open>The other four cases of the selector are as C5 states them.\<close>

lemma choose_algorithm_without_landmarks:
  assumes "landmarks idx = None" "node_count idx = Some n" "uniform_weights idx = Some u"
  shows "choose_algorithm adj (Some idx) =
     (if list_ex (\<lambda>(u, edges). list_ex (\<lambda>(v, w). w < 0) edges) adj then bellman_ford
      else if n > 10000 then (\<lambda>a s g. a_star a s g zero_heuristic)
      else if u then (\<lambda>a s g. Some (bfs a s g))
      else dijkstra)"
  using assms by (simp add: choose_algorithm_def)

subsection \<open>Walks\<close>

lemma edgeI: "map_of adj u = Some edges \<Longrightarrow> (v, w) \<in> set edges \<Longrightarrow> edge adj u v w"
  by (simp add: edge_def)

lemma edgeE:
  assumes "edge adj u v w"
  obtains edges where "map_of adj u = Some edges" "(v, w) \<in> set edges"
  using assms by (cases "map_of adj u") (auto simp: edge_def)

lemma walk_Cons_iff:
  "walk adj (u # v # p) c = (\<exists>w. edge adj u v w \<and> walk adj (v # p) (c - w))"
  by (cases "map_of adj u") (auto simp: edge_def list_ex_iff)

declare walk.simps(3) [simp del]

lemma walk_nonempty: "walk adj p c \<Longrightarrow> p \<noteq> []"
  by auto

lemma walk_snoc:
  "walk adj p c \<Longrightarrow> edge adj (last p) v w \<Longrightarrow> walk adj (p @ [v]) (c + w)"
proof (induction p arbitrary: c)
  case Nil
  then show ?case by simp
next
  case (Cons u p)
  show ?case
  proof (cases p)
    case Nil
    with Cons.prems have "c = 0" "edge adj u v w" by simp_all
    then have "walk adj (u # [v]) (c + w)"
      by (simp add: walk_Cons_iff)
    with Nil show ?thesis by simp
  next
    case (Cons u' p')
    with Cons.prems obtain w' where w': "edge adj u u' w'" "walk adj (u' # p') (c - w')"
      by (auto simp: walk_Cons_iff)
    from Cons.prems(2) Cons have "edge adj (last p) v w" by simp
    from Cons.IH[OF _ this, of "c - w'"] w'(2) Cons
    have "walk adj (u' # p' @ [v]) (c - w' + w)" by simp
    then have "walk adj (u' # p' @ [v]) (c + w - w')" by (simp add: algebra_simps)
    with w'(1) have "walk adj (u # u' # p' @ [v]) (c + w)"
      by (auto simp: walk_Cons_iff)
    with Cons show ?thesis by simp
  qed
qed

lemma walk_nonneg:
  assumes "nonneg_weights adj"
  shows "walk adj p c \<Longrightarrow> 0 \<le> c"
proof (induction p arbitrary: c)
  case Nil
  then show ?case by simp
next
  case (Cons u p)
  show ?case
  proof (cases p)
    case Nil
    with Cons.prems show ?thesis by simp
  next
    case (Cons u' p')
    with Cons.prems obtain w' where w': "edge adj u u' w'" "walk adj (u' # p') (c - w')"
      by (auto simp: walk_Cons_iff)
    from w'(1) have "0 \<le> w'" by (elim edgeE) (rule edge_nonneg[OF assms])
    moreover from Cons.IH[of "c - w'"] w'(2) Cons have "0 \<le> c - w'" by simp
    ultimately show ?thesis by simp
  qed
qed

lemma walk_last_target:
  "walk adj p c \<Longrightarrow> p = [hd p] \<or> last p \<in> targets adj"
proof (induction p arbitrary: c)
  case Nil
  then show ?case by simp
next
  case (Cons u p)
  show ?case
  proof (cases p)
    case Nil
    then show ?thesis by simp
  next
    case (Cons u' p')
    with Cons.prems obtain w' where w': "edge adj u u' w'" "walk adj (u' # p') (c - w')"
      by (auto simp: walk_Cons_iff)
    from w'(1) have "u' \<in> targets adj" by (elim edgeE) (rule edge_target)
    moreover from Cons.IH[of "c - w'"] w'(2) Cons
    have "p = [u'] \<or> last p \<in> targets adj" by simp
    ultimately show ?thesis using Cons by auto
  qed
qed

lemma well_formed_target:
  assumes "well_formed adj" "v \<in> targets adj"
  shows "\<exists>edges. map_of adj v = Some edges"
proof -
  from assms(2) obtain u edges w where "(u, edges) \<in> set adj" "(v, w) \<in> set edges"
    unfolding targets_def by auto
  with assms(1) have "\<not> Option.is_none (map_of adj v)"
    unfolding well_formed_def list_all_iff by blast
  then show ?thesis by (cases "map_of adj v") auto
qed

lemma heappop_least:
  assumes "pq \<noteq> []" "heappop pq = (e, pq')"
  shows "e \<in> set pq" "pq' = remove1 e pq" "\<And>x. x \<in> set pq \<Longrightarrow> e \<le> x"
  using heappop_member[OF assms] by auto

lemma a_star_push_total:
  assumes "\<forall>(v, w) \<in> set edges. heuristic v goal = Inr (hr v)"
  shows "\<exists>pq'. a_star_push heuristic goal path g edges pq = Inr pq' \<and>
      set pq' = set pq \<union> (\<lambda>(v, w). (real_of_int (g + w) + hr v, g + w, v, path @ [v])) ` set edges"
  using assms
proof (induction edges arbitrary: pq)
  case Nil
  then show ?case by simp
next
  case (Cons e edges)
  obtain v w where e: "e = (v, w)" by (cases e)
  with Cons.prems have hv: "heuristic v goal = Inr (hr v)" by simp
  from Cons.prems have "\<forall>(v, w) \<in> set edges. heuristic v goal = Inr (hr v)" by simp
  from Cons.IH[OF this, of "heappush pq (real_of_int (g + w) + hr v, g + w, v, path @ [v])"]
  show ?case using hv e by (auto simp: heappush_def)
qed

subsection \<open>A* returns, and returns a walk to the goal\<close>

lemma heuristic_total_value:
  assumes "heuristic_total adj goal heuristic" "u \<in> insert goal (nodes adj)"
  shows "heuristic u goal = Inr (h_value heuristic goal u)"
  using assms unfolding heuristic_total_def h_value_def by fastforce

lemma key_has_edges:
  assumes "u \<in> fst ` set adj"
  shows "\<exists>edges. map_of adj u = Some edges"
  using assms by (cases "map_of adj u") (auto simp: map_of_eq_None_iff)

lemma entry_node_is_key:
  assumes "well_formed adj" "walk adj p g" "hd p = start" "start = goal \<or> start \<in> fst ` set adj"
    "last p \<noteq> goal"
  shows "\<exists>edges. map_of adj (last p) = Some edges"
proof -
  from walk_last_target[OF assms(2)] show ?thesis
  proof
    assume "p = [hd p]"
    then have "last p = start" using assms(3) by (metis last.simps)
    with assms(4,5) show ?thesis by (auto intro: key_has_edges)
  next
    assume "last p \<in> targets adj"
    with assms(1) show ?thesis by (rule well_formed_target)
  qed
qed

lemma a_star_entries_push:
  assumes ent: "a_star_entries adj start goal heuristic pq"
    and walk: "walk adj p g" "hd p = start" "last p = n"
    and edges: "map_of adj n = Some edges"
    and ht: "heuristic_total adj goal heuristic"
  shows "\<exists>pq'. a_star_push heuristic goal p g edges pq = Inr pq' \<and>
      set pq' = set pq \<union>
        (\<lambda>(v, w). (real_of_int (g + w) + h_value heuristic goal v, g + w, v, p @ [v])) ` set edges \<and>
      a_star_entries adj start goal heuristic pq'"
proof -
  have hv: "\<forall>(v, w) \<in> set edges. heuristic v goal = Inr (h_value heuristic goal v)"
  proof clarify
    fix v w assume "(v, w) \<in> set edges"
    with edges have "v \<in> targets adj" by (rule edge_target)
    then show "heuristic v goal = Inr (h_value heuristic goal v)"
      by (intro heuristic_total_value[OF ht]) (simp add: nodes_def)
  qed
  from a_star_push_total[of edges heuristic goal "h_value heuristic goal" p g pq] hv
  obtain pq' where pq': "a_star_push heuristic goal p g edges pq = Inr pq'"
    "set pq' = set pq \<union>
      (\<lambda>(v, w). (real_of_int (g + w) + h_value heuristic goal v, g + w, v, p @ [v])) ` set edges"
    by blast
  have "a_star_entries adj start goal heuristic pq'"
    unfolding a_star_entries_def
  proof (clarify)
    fix f' g' n' p' assume "(f', g', n', p') \<in> set pq'"
    with pq'(2) consider "(f', g', n', p') \<in> set pq"
      | v w where "(v, w) \<in> set edges" "f' = real_of_int (g + w) + h_value heuristic goal v"
          "g' = g + w" "n' = v" "p' = p @ [v]"
      by auto
    then show "f' = real_of_int g' + h_value heuristic goal n' \<and> walk adj p' g' \<and>
        hd p' = start \<and> last p' = n'"
    proof cases
      case 1
      with ent show ?thesis unfolding a_star_entries_def by fastforce
    next
      case 2
      from edges 2(1) have "edge adj (last p) v w" using walk(3) by (auto intro: edgeI)
      from walk_snoc[OF walk(1) this] walk(2) walk_nonempty[OF walk(1)] 2
      show ?thesis by simp
    qed
  qed
  with pq' show ?thesis by blast
qed

lemma a_star_loop_total:
  assumes wf: "well_formed adj" and nn: "nonneg_weights adj"
    and ht: "heuristic_total adj goal heuristic"
    and st: "start = goal \<or> start \<in> fst ` set adj"
  shows "a_star_entries adj start goal heuristic pq \<Longrightarrow>
    \<exists>r. a_star_loop adj heuristic goal visited pq = Some (Inr r) \<and> sound_result adj start goal r"
proof (induction "(card (fst ` set adj - dom visited), dist_sum (fst ` set adj) visited, length pq)"
    arbitrary: visited pq rule: search_induct)
  case step
  let ?K = "fst ` set adj"
  show ?case
  proof (cases "pq = []")
    case True
    then show ?thesis by (subst a_star_loop.simps) (simp add: sound_result_def)
  next
    case False
    obtain f g n p pq' where pop: "heappop pq = ((f, g, n, p), pq')" by (metis prod.exhaust)
    from heappop_least[OF False pop]
    have mem: "(f, g, n, p) \<in> set pq" and pq': "pq' = remove1 (f, g, n, p) pq" by simp_all
    from step.prems mem have e: "walk adj p g" "hd p = start" "last p = n"
      unfolding a_star_entries_def by auto
    have ent': "a_star_entries adj start goal heuristic pq'"
      using step.prems set_remove1_subset[of "(f, g, n, p)" pq]
      unfolding a_star_entries_def pq' by blast
    have shorter: "length pq' < length pq" unfolding pq' using mem by (rule length_remove1_less)
    show ?thesis
    proof (cases "n = goal")
      case True
      with e have "sound_result adj start goal (Some p, Cost g)" by (simp add: sound_result_def)
      then show ?thesis using False pop True by (subst a_star_loop.simps) simp
    next
      case ng: False
      show ?thesis
      proof (cases "case visited n of None \<Rightarrow> False | Some c \<Rightarrow> c \<le> g")
        case True
        have "\<exists>r. a_star_loop adj heuristic goal visited pq' = Some (Inr r) \<and>
            sound_result adj start goal r"
          by (rule step.hyps[OF _ ent']) (simp add: search_order_def shorter)
        then show ?thesis using False pop ng True by (subst a_star_loop.simps) simp
      next
        case nskip: False
        from entry_node_is_key[OF wf e(1,2) st] e(3) ng
        obtain edges where edges: "map_of adj n = Some edges" by auto
        then have nK: "n \<in> ?K" by (auto dest!: map_of_SomeD intro: rev_image_eqI)
        from a_star_entries_push[OF ent' e edges ht]
        obtain pq'' where push: "a_star_push heuristic goal p g edges pq' = Inr pq''"
          and ent'': "a_star_entries adj start goal heuristic pq''"
          by blast
        have g0: "0 \<le> g" using walk_nonneg[OF nn e(1)] .
        have "(card (?K - dom (visited(n \<mapsto> g))), dist_sum ?K (visited(n \<mapsto> g))) \<noteq>
              (card (?K - dom visited), dist_sum ?K visited) \<and>
              ((card (?K - dom (visited(n \<mapsto> g))), dist_sum ?K (visited(n \<mapsto> g))),
               (card (?K - dom visited), dist_sum ?K visited)) \<in> less_than <*lex*> less_than"
        proof (cases "visited n")
          case None
          then have "n \<in> ?K - dom visited" using nK by auto
          then have "card (?K - dom (visited(n \<mapsto> g))) < card (?K - dom visited)"
            by (intro psubset_card_mono) auto
          then show ?thesis by simp
        next
          case (Some c)
          with nskip have "g < c" by simp
          then have "dist_sum ?K (visited(n \<mapsto> g)) < dist_sum ?K visited"
            using nK Some g0 by (intro dist_sum_update) auto
          moreover have "dom (visited(n \<mapsto> g)) = dom visited" using Some by auto
          ultimately show ?thesis by simp
        qed
        then have "((card (?K - dom (visited(n \<mapsto> g))), dist_sum ?K (visited(n \<mapsto> g)), length pq''),
             (card (?K - dom visited), dist_sum ?K visited, length pq)) \<in> search_order"
          unfolding search_order_def by auto
        from step.hyps[OF this ent'']
        have "\<exists>r. a_star_loop adj heuristic goal (visited(n \<mapsto> g)) pq'' = Some (Inr r) \<and>
            sound_result adj start goal r" .
        then show ?thesis
          using False pop ng nskip edges push by (subst a_star_loop.simps) simp
      qed
    qed
  qed
qed

subsection \<open>A* with an admissible heuristic returns the least cost\<close>

lemma admissible_total: "admissible adj goal heuristic \<Longrightarrow> heuristic_total adj goal heuristic"
  unfolding admissible_def heuristic_total_def by blast

lemma status_mono: "status visited pq v b \<Longrightarrow> b \<le> b' \<Longrightarrow> status visited pq v b'"
  unfolding status_def by fastforce

lemma status_skip:
  assumes "status visited pq v b" "visited n = Some c" "c \<le> g"
  shows "status visited (remove1 (f, g, n, p) pq) v b"
proof -
  from assms(1) consider f' g' p' where "(f', g', v, p') \<in> set pq" "g' \<le> b"
    | c' where "visited v = Some c'" "c' \<le> b"
    unfolding status_def by auto
  then show ?thesis
  proof cases
    case 1
    show ?thesis
    proof (cases "(f', g', v, p') = (f, g, n, p)")
      case True
      with 1 assms(2,3) have "visited v = Some c" "c \<le> b" by auto
      then show ?thesis unfolding status_def by blast
    next
      case False
      with 1(1) have "(f', g', v, p') \<in> set (remove1 (f, g, n, p) pq)" by simp
      with 1(2) show ?thesis unfolding status_def by blast
    qed
  next
    case 2
    then show ?thesis unfolding status_def by blast
  qed
qed

lemma status_expand:
  assumes "status visited pq v b" "\<forall>c. visited n = Some c \<longrightarrow> g < c"
    "set (remove1 (f, g, n, p) pq) \<subseteq> set pq''"
  shows "status (visited(n \<mapsto> g)) pq'' v b"
proof -
  from assms(1) consider f' g' p' where "(f', g', v, p') \<in> set pq" "g' \<le> b"
    | c' where "visited v = Some c'" "c' \<le> b"
    unfolding status_def by auto
  then show ?thesis
  proof cases
    case 1
    show ?thesis
    proof (cases "(f', g', v, p') = (f, g, n, p)")
      case True
      with 1 have "(visited(n \<mapsto> g)) v = Some g" "g \<le> b" by auto
      then show ?thesis unfolding status_def by blast
    next
      case False
      with 1(1) have "(f', g', v, p') \<in> set (remove1 (f, g, n, p) pq)" by simp
      with assms(3) have "(f', g', v, p') \<in> set pq''" by blast
      with 1(2) show ?thesis unfolding status_def by blast
    qed
  next
    case 2
    show ?thesis
    proof (cases "v = n")
      case True
      with 2 assms(2) have "(visited(n \<mapsto> g)) v = Some g" "g \<le> b" by auto
      then show ?thesis unfolding status_def by blast
    next
      case False
      with 2 have "(visited(n \<mapsto> g)) v = Some c'" "c' \<le> b" by auto
      then show ?thesis unfolding status_def by blast
    qed
  qed
qed

lemma a_star_inv_skip:
  assumes "a_star_inv adj start goal heuristic visited pq" "visited n = Some c" "c \<le> g"
  shows "a_star_inv adj start goal heuristic visited (remove1 (f, g, n, p) pq)"
proof -
  have "a_star_entries adj start goal heuristic (remove1 (f, g, n, p) pq)"
    using assms(1) set_remove1_subset[of "(f, g, n, p)" pq]
    unfolding a_star_inv_def a_star_entries_def by blast
  with assms show ?thesis
    unfolding a_star_inv_def by (auto intro: status_skip)
qed

lemma a_star_inv_expand:
  assumes inv: "a_star_inv adj start goal heuristic visited pq"
    and ng: "n \<noteq> goal" and better: "\<forall>c. visited n = Some c \<longrightarrow> g < c"
    and edges: "map_of adj n = Some edges"
    and pq'': "set pq'' = set (remove1 (f, g, n, p) pq) \<union>
        (\<lambda>(v, w). (real_of_int (g + w) + h_value heuristic goal v, g + w, v, p @ [v])) ` set edges"
    and ent: "a_star_entries adj start goal heuristic pq''"
  shows "a_star_inv adj start goal heuristic (visited(n \<mapsto> g)) pq''"
proof -
  have sub: "set (remove1 (f, g, n, p) pq) \<subseteq> set pq''" using pq'' by blast
  have mono: "status (visited(n \<mapsto> g)) pq'' v b" if "status visited pq v b" for v b
    using that better sub by (rule status_expand)
  have "status (visited(n \<mapsto> g)) pq'' v (c + w)"
    if "(visited(n \<mapsto> g)) m = Some c" "edge adj m v w" for m c v w
  proof (cases "m = n")
    case True
    with that(1) have c: "c = g" by simp
    from that(2) True edges have "(v, w) \<in> set edges" by (auto elim: edgeE)
    then have "(real_of_int (g + w) + h_value heuristic goal v, g + w, v, p @ [v]) \<in> set pq''"
      unfolding pq'' by force
    then show ?thesis unfolding status_def c by blast
  next
    case False
    with that(1) have "visited m = Some c" by simp
    with inv that(2) have "status visited pq v (c + w)" unfolding a_star_inv_def by blast
    then show ?thesis by (rule mono)
  qed
  moreover have "status (visited(n \<mapsto> g)) pq'' start 0"
    using inv mono unfolding a_star_inv_def by blast
  moreover have "(visited(n \<mapsto> g)) goal = None"
    using inv ng unfolding a_star_inv_def by simp
  ultimately show ?thesis using ent unfolding a_star_inv_def by blast
qed

lemma a_star_frontier:
  assumes inv: "a_star_inv adj start goal heuristic visited pq"
    and adm: "admissible adj goal heuristic"
  shows "walk adj q d \<Longrightarrow> last q = goal \<Longrightarrow> status visited pq (hd q) b \<Longrightarrow>
    \<exists>(f, g, n, p) \<in> set pq. f \<le> real_of_int (b + d)"
proof (induction q arbitrary: b d)
  case Nil
  then show ?case by simp
next
  case (Cons u q)
  have ent: "a_star_entries adj start goal heuristic pq"
    and closed: "visited goal = None"
    using inv unfolding a_star_inv_def by simp_all
  have open_case: "\<exists>(f, g, n, p) \<in> set pq. f \<le> real_of_int (b + d)"
    if "(f, g, u, p) \<in> set pq" "g \<le> b" "h_value heuristic goal u \<le> real_of_int d" for f g p
  proof -
    from ent that(1) have "f = real_of_int g + h_value heuristic goal u"
      unfolding a_star_entries_def by fastforce
    with that(2,3) have "f \<le> real_of_int (b + d)" by simp
    with that(1) show ?thesis by blast
  qed
  show ?case
  proof (cases q)
    case Nil
    with Cons.prems have u: "u = goal" and d: "d = 0" by simp_all
    from adm have "h_value heuristic goal goal \<le> real_of_int 0"
      unfolding admissible_def by (auto dest!: bspec[of _ _ goal] spec[of _ "[goal]"])
    with Cons.prems(3) closed u d open_case show ?thesis
      unfolding status_def by fastforce
  next
    case (Cons v q')
    with Cons.prems obtain w where w: "edge adj u v w" "walk adj (v # q') (d - w)"
      by (auto simp: walk_Cons_iff)
    from w(1) have "u \<in> fst ` set adj" by (auto elim!: edgeE dest!: map_of_SomeD intro: rev_image_eqI)
    then have "u \<in> insert goal (nodes adj)" by (simp add: nodes_def)
    with adm Cons.prems(1,2) Cons have hu: "h_value heuristic goal u \<le> real_of_int d"
      unfolding admissible_def by (metis list.sel(1))
    from Cons.prems(3) consider f g p where "(f, g, u, p) \<in> set pq" "g \<le> b"
      | c where "visited u = Some c" "c \<le> b"
      unfolding status_def by auto
    then show ?thesis
    proof cases
      case 1
      with hu show ?thesis by (intro open_case)
    next
      case 2
      with inv w(1) have "status visited pq v (c + w)" unfolding a_star_inv_def by blast
      from Cons.IH[of "d - w" "c + w"] w(2) Cons.prems(2) this Cons
      obtain f g n p where "(f, g, n, p) \<in> set pq" "f \<le> real_of_int (c + w + (d - w))"
        by auto
      with 2(2) have "(f, g, n, p) \<in> set pq" "f \<le> real_of_int (b + d)" by simp_all
      then show ?thesis by blast
    qed
  qed
qed

lemma prod_le_fst: "(a, x) \<le> (b, y) \<Longrightarrow> a \<le> (b::'a::linorder)"
  for x y :: "'b::linorder"
  by (auto simp: less_eq_prod_def)

lemma a_star_loop_optimal:
  assumes "a_star_loop adj heuristic goal visited pq = Some y"
  shows "well_formed adj \<and> admissible adj goal heuristic \<and>
     (start = goal \<or> start \<in> fst ` set adj) \<and>
     a_star_inv adj start goal heuristic visited pq \<and>
     walk adj q d \<and> hd q = start \<and> last q = goal \<longrightarrow>
     (\<exists>p g. y = Inr (Some p, Cost g) \<and> g \<le> d)"
  using assms
proof (induct rule: a_star_loop.raw_induct[rotated 1, consumes 1, case_names step])
  case (step loop adj heuristic goal visited pq y)
  show ?case
  proof (intro impI, elim conjE)
    assume wf: "well_formed adj" and adm: "admissible adj goal heuristic"
      and st: "start = goal \<or> start \<in> fst ` set adj"
      and inv: "a_star_inv adj start goal heuristic visited pq"
      and q: "walk adj q d" "hd q = start" "last q = goal"
    have ent: "a_star_entries adj start goal heuristic pq"
      and s0: "status visited pq start 0"
      using inv unfolding a_star_inv_def by simp_all
    from a_star_frontier[OF inv adm q(1) q(3), of 0] s0 q(2)
    obtain f' g' n' p' where front: "(f', g', n', p') \<in> set pq" "f' \<le> real_of_int d"
      by auto
    then have ne: "pq \<noteq> []" by auto
    obtain f g n p pq' where pop: "heappop pq = ((f, g, n, p), pq')" by (metis prod.exhaust)
    from heappop_least[OF ne pop]
    have mem: "(f, g, n, p) \<in> set pq" and pq': "pq' = remove1 (f, g, n, p) pq"
      and least: "\<And>x. x \<in> set pq \<Longrightarrow> (f, g, n, p) \<le> x" by simp_all
    from ent mem have e: "walk adj p g" "hd p = start" "last p = n"
      and f: "f = real_of_int g + h_value heuristic goal n"
      unfolding a_star_entries_def by auto
    show "\<exists>p g. y = Inr (Some p, Cost g) \<and> g \<le> d"
    proof (cases "n = goal")
      case True
      from step(2) ne pop True have y: "y = Inr (Some p, Cost g)" by simp
      from least[OF front(1)] have "f \<le> f'" by (rule prod_le_fst)
      moreover from adm have "0 \<le> h_value heuristic goal goal"
        unfolding admissible_def by simp
      ultimately have "real_of_int g \<le> real_of_int d" using f front(2) True by simp
      with y show ?thesis by simp
    next
      case ng: False
      show ?thesis
      proof (cases "case visited n of None \<Rightarrow> False | Some c \<Rightarrow> c \<le> g")
        case True
        then obtain c where c: "visited n = Some c" "c \<le> g" by (cases "visited n") auto
        from step(2) ne pop ng True have "loop adj heuristic goal visited pq' = Some y" by simp
        moreover have "a_star_inv adj start goal heuristic visited pq'"
          unfolding pq' using inv c by (rule a_star_inv_skip)
        ultimately show ?thesis using step(1) wf adm st q by blast
      next
        case nskip: False
        then have better: "\<forall>c. visited n = Some c \<longrightarrow> g < c" by (cases "visited n") auto
        from entry_node_is_key[OF wf e(1,2) st] e(3) ng
        obtain edges where edges: "map_of adj n = Some edges" by auto
        have ent': "a_star_entries adj start goal heuristic pq'"
          using ent set_remove1_subset[of "(f, g, n, p)" pq]
          unfolding a_star_entries_def pq' by blast
        from a_star_entries_push[OF ent' e edges admissible_total[OF adm]]
        obtain pq'' where push: "a_star_push heuristic goal p g edges pq' = Inr pq''"
          and set'': "set pq'' = set pq' \<union>
            (\<lambda>(v, w). (real_of_int (g + w) + h_value heuristic goal v, g + w, v, p @ [v])) ` set edges"
          and ent'': "a_star_entries adj start goal heuristic pq''"
          by blast
        from step(2) ne pop ng nskip edges push
        have "loop adj heuristic goal (visited(n \<mapsto> g)) pq'' = Some y" by simp
        moreover have "a_star_inv adj start goal heuristic (visited(n \<mapsto> g)) pq''"
          using inv ng better edges set''[unfolded pq'] ent'' by (rule a_star_inv_expand)
        ultimately show ?thesis using step(1) wf adm st q by blast
      qed
    qed
  qed
qed

lemma walk_start_node:
  assumes "walk adj q d" "hd q = start" "last q = goal"
  shows "start = goal \<or> start \<in> fst ` set adj"
proof (cases q)
  case Nil
  with assms show ?thesis by simp
next
  case (Cons u q')
  show ?thesis
  proof (cases q')
    case Nil
    with Cons assms show ?thesis by simp
  next
    case (Cons v q'')
    with \<open>q = u # q'\<close> assms obtain w where "edge adj start v w"
      by (auto simp: walk_Cons_iff)
    then show ?thesis by (auto elim!: edgeE dest!: map_of_SomeD intro: rev_image_eqI)
  qed
qed

lemma a_star_optimal:
  assumes wf: "well_formed adj" and nn: "nonneg_weights adj"
    and adm: "admissible adj goal heuristic"
    and q: "walk adj q d" "hd q = start" "last q = goal"
  shows "\<exists>p g. a_star adj start goal heuristic = Some (Inr (Some p, Cost g)) \<and>
     walk adj p g \<and> hd p = start \<and> last p = goal \<and>
     (\<forall>q' d'. walk adj q' d' \<and> hd q' = start \<and> last q' = goal \<longrightarrow> g \<le> d')"
proof -
  have st: "start = goal \<or> start \<in> fst ` set adj" using q by (rule walk_start_node)
  then have "start \<in> insert goal (nodes adj)" by (auto simp: nodes_def)
  from heuristic_total_value[OF admissible_total[OF adm] this]
  have hs: "heuristic start goal = Inr (h_value heuristic goal start)" .
  let ?pq = "[(h_value heuristic goal start, 0, start, [start])]"
  have a: "a_star adj start goal heuristic = a_star_loop adj heuristic goal Map.empty ?pq"
    by (simp add: a_star_def hs)
  have ent: "a_star_entries adj start goal heuristic ?pq"
    by (simp add: a_star_entries_def)
  have inv: "a_star_inv adj start goal heuristic Map.empty ?pq"
    using ent by (simp add: a_star_inv_def status_def)
  from a_star_loop_total[OF wf nn admissible_total[OF adm] st ent, of Map.empty]
  obtain r where r: "a_star_loop adj heuristic goal Map.empty ?pq = Some (Inr r)"
    "sound_result adj start goal r"
    by blast
  from a_star_loop_optimal[OF r(1), of start q d] wf adm st inv q
  obtain p g where "r = (Some p, Cost g)" by auto
  with r(2) have pg: "r = (Some p, Cost g)" "walk adj p g" "hd p = start" "last p = goal"
    by (auto simp: sound_result_def)
  have "g \<le> d'" if "walk adj q' d'" "hd q' = start" "last q' = goal" for q' d'
    using a_star_loop_optimal[OF r(1), of start q' d'] wf adm st inv that pg(1) by auto
  with pg r(1) a show ?thesis by auto
qed

subsection \<open>Dijkstra is A* with the zero heuristic\<close>

lemma a_star_entry_le:
  fixes x y :: "int \<times> 'a::linorder \<times> 'a list"
  shows "a_star_entry x \<le> a_star_entry y \<longleftrightarrow> x \<le> y"
  by (cases x; cases y) (auto simp: a_star_entry_def less_eq_prod_def)

lemma a_star_entry_min:
  fixes x y :: "int \<times> 'a::linorder \<times> 'a list"
  shows "min (a_star_entry x) (a_star_entry y) = a_star_entry (min x y)"
  by (simp add: min_def a_star_entry_le)

lemma a_star_entry_inj: "a_star_entry x = a_star_entry y \<longleftrightarrow> x = y"
  by (auto simp: a_star_entry_def)

lemma min_list_a_star_entry:
  fixes pq :: "(int \<times> 'a::linorder \<times> 'a list) list"
  shows "pq \<noteq> [] \<Longrightarrow> min_list (map a_star_entry pq) = a_star_entry (min_list pq)"
proof (induction pq)
  case Nil
  then show ?case by simp
next
  case (Cons e pq)
  then show ?case by (cases pq) (simp_all add: a_star_entry_min)
qed

lemma remove1_a_star_entry:
  "remove1 (a_star_entry e) (map a_star_entry pq) = map a_star_entry (remove1 e pq)"
  by (induction pq) (auto simp: a_star_entry_inj)

lemma heappop_a_star_entry:
  fixes pq :: "(int \<times> 'a::linorder \<times> 'a list) list"
  assumes "pq \<noteq> []" "heappop pq = (e, pq')"
  shows "heappop (map a_star_entry pq) = (a_star_entry e, map a_star_entry pq')"
  using assms by (auto simp: heappop_def min_list_a_star_entry remove1_a_star_entry)

lemma a_star_push_zero:
  "a_star_push zero_heuristic goal path g edges (map a_star_entry pq) =
   Inr (map a_star_entry (dijkstra_push g path edges pq))"
proof (induction edges arbitrary: pq)
  case Nil
  then show ?case by (simp add: dijkstra_push_def)
next
  case (Cons e edges)
  obtain v w where e: "e = (v, w)" by (cases e)
  have "a_star_push zero_heuristic goal path g (e # edges) (map a_star_entry pq) =
      a_star_push zero_heuristic goal path g edges
        (map a_star_entry (heappush pq (g + w, v, path @ [v])))"
    by (simp add: e zero_heuristic_def heappush_def a_star_entry_def)
  also have "\<dots> = Inr (map a_star_entry
      (dijkstra_push g path edges (heappush pq (g + w, v, path @ [v]))))"
    by (rule Cons.IH)
  finally show ?case by (simp add: dijkstra_push_def e)
qed

lemma dijkstra_loop_as_a_star:
  assumes "dijkstra_loop adj goal visited pq = Some y"
  shows "a_star_loop adj zero_heuristic goal visited (map a_star_entry pq) = Some y"
  using assms
proof (induct rule: dijkstra_loop.raw_induct[rotated 1, consumes 1, case_names step])
  case (step loop adj goal visited pq y)
  show ?case
  proof (cases "pq = []")
    case True
    with step(2) show ?thesis by (subst a_star_loop.simps) simp
  next
    case False
    obtain c n p pq' where pop: "heappop pq = ((c, n, p), pq')" by (metis prod.exhaust)
    from heappop_a_star_entry[OF False pop]
    have pop': "heappop (map a_star_entry pq) = ((real_of_int c, c, n, p), map a_star_entry pq')"
      by (simp add: a_star_entry_def)
    show ?thesis
    proof (cases "n = goal")
      case True
      with step(2) False pop pop' show ?thesis by (subst a_star_loop.simps) simp
    next
      case ng: False
      show ?thesis
      proof (cases "case visited n of None \<Rightarrow> False | Some b \<Rightarrow> b \<le> c")
        case True
        with step(2) False pop ng have "loop adj goal visited pq' = Some y" by simp
        from step(1)[OF this]
        have rec: "a_star_loop adj zero_heuristic goal visited (map a_star_entry pq') = Some y" .
        show ?thesis using False pop' ng True
          by (subst a_star_loop.simps) (simp add: rec)
      next
        case nskip: False
        show ?thesis
        proof (cases "map_of adj n")
          case None
          with step(2) False pop pop' ng nskip show ?thesis
            by (subst a_star_loop.simps) simp
        next
          case (Some edges)
          with step(2) False pop ng nskip
          have "loop adj goal (visited(n \<mapsto> c)) (dijkstra_push c p edges pq') = Some y" by simp
          from step(1)[OF this]
          have rec: "a_star_loop adj zero_heuristic goal (visited(n \<mapsto> c))
              (map a_star_entry (dijkstra_push c p edges pq')) = Some y" .
          show ?thesis using False pop' ng nskip Some
            by (subst a_star_loop.simps) (simp add: a_star_push_zero rec)
        qed
      qed
    qed
  qed
qed

lemma a_star_loop_as_dijkstra:
  assumes "a_star_loop adj heuristic goal visited aq = Some y"
  shows "\<forall>pq. heuristic = zero_heuristic \<and> aq = map a_star_entry pq \<longrightarrow>
     dijkstra_loop adj goal visited pq = Some y"
  using assms
proof (induct rule: a_star_loop.raw_induct[rotated 1, consumes 1, case_names step])
  case (step loop adj heuristic goal visited aq y)
  show ?case
  proof (intro allI impI, elim conjE)
    fix pq :: "(int \<times> 'a \<times> 'a list) list"
    assume h: "heuristic = zero_heuristic" and aq: "aq = map a_star_entry pq"
    show "dijkstra_loop adj goal visited pq = Some y"
    proof (cases "pq = []")
      case True
      with step(2) aq show ?thesis by (subst dijkstra_loop.simps) simp
    next
      case False
      obtain c n p pq' where pop: "heappop pq = ((c, n, p), pq')" by (metis prod.exhaust)
      from heappop_a_star_entry[OF False pop]
      have pop': "heappop aq = ((real_of_int c, c, n, p), map a_star_entry pq')"
        by (simp add: a_star_entry_def aq)
      have ne: "aq \<noteq> []" using False aq by simp
      show ?thesis
      proof (cases "n = goal")
        case True
        with step(2) ne pop pop' False show ?thesis by (subst dijkstra_loop.simps) simp
      next
        case ng: False
        show ?thesis
        proof (cases "case visited n of None \<Rightarrow> False | Some b \<Rightarrow> b \<le> c")
          case True
          with step(2) ne pop' ng
          have "loop adj heuristic goal visited (map a_star_entry pq') = Some y" by simp
          with step(1) h have "dijkstra_loop adj goal visited pq' = Some y" by blast
          with False pop ng True show ?thesis by (subst dijkstra_loop.simps) simp
        next
          case nskip: False
          show ?thesis
          proof (cases "map_of adj n")
            case None
            with step(2) ne pop pop' ng nskip False show ?thesis
              by (subst dijkstra_loop.simps) simp
          next
            case (Some edges)
            with step(2) ne pop' ng nskip h
            have "loop adj heuristic goal (visited(n \<mapsto> c))
                (map a_star_entry (dijkstra_push c p edges pq')) = Some y"
              by (simp add: a_star_push_zero)
            with step(1) h
            have rec: "dijkstra_loop adj goal (visited(n \<mapsto> c)) (dijkstra_push c p edges pq') = Some y"
              by blast
            show ?thesis using False pop ng nskip Some
              by (subst dijkstra_loop.simps) (simp add: rec)
          qed
        qed
      qed
    qed
  qed
qed

lemma dijkstra_is_a_star_zero:
  "dijkstra adj start goal = a_star adj start goal zero_heuristic"
proof -
  let ?pq = "[(0, start, [start])]"
  have a: "a_star adj start goal zero_heuristic =
      a_star_loop adj zero_heuristic goal Map.empty (map a_star_entry ?pq)"
    by (simp add: a_star_def zero_heuristic_def a_star_entry_def)
  show ?thesis
  proof (cases "dijkstra_loop adj goal Map.empty ?pq")
    case (Some y)
    from dijkstra_loop_as_a_star[OF this] Some a show ?thesis by (simp add: dijkstra_def)
  next
    case None
    show ?thesis
    proof (cases "a_star_loop adj zero_heuristic goal Map.empty (map a_star_entry ?pq)")
      case None
      with \<open>dijkstra_loop adj goal Map.empty ?pq = None\<close> a show ?thesis
        by (simp add: dijkstra_def)
    next
      case (Some y)
      from a_star_loop_as_dijkstra[OF this] have "dijkstra_loop adj goal Map.empty ?pq = Some y"
        by blast
      with None show ?thesis by simp
    qed
  qed
qed

lemma zero_heuristic_admissible:
  assumes "nonneg_weights adj"
  shows "admissible adj goal zero_heuristic"
  unfolding admissible_def
  using walk_nonneg[OF assms] by (auto simp: zero_heuristic_def h_value_def)

subsection \<open>The optimal searches\<close>

text \<open>
  C1, as the code has it. Take a graph with non-negative weights in which every node
  an edge points to is a key, a start and a goal joined by a walk, and a heuristic that
  on every node of the graph returns a number \<open>\<ge> 0\<close> that does not exceed the cost of
  any walk from the node to the goal. Then \<open>dijkstra\<close>, \<open>bidirectional_dijkstra\<close>,
  \<open>a_star\<close> with the zero heuristic and \<open>a_star\<close> with that heuristic all return, and
  return the same cost; the returned paths are walks from the start to the goal whose
  weights sum to that cost, and no walk from the start to the goal is cheaper.
\<close>

theorem optimal_search_costs:
  assumes "well_formed adj" "nonneg_weights adj"
    and "walk adj q d" "hd q = start" "last q = goal"
    and "admissible adj goal heuristic"
  shows "\<exists>c p p'.
     dijkstra adj start goal = Some (Inr (Some p, Cost c)) \<and>
     bidirectional_dijkstra adj start goal = Some (Inr (Some p, Cost c)) \<and>
     a_star adj start goal zero_heuristic = Some (Inr (Some p, Cost c)) \<and>
     a_star adj start goal heuristic = Some (Inr (Some p', Cost c)) \<and>
     walk adj p c \<and> hd p = start \<and> last p = goal \<and>
     walk adj p' c \<and> hd p' = start \<and> last p' = goal \<and>
     (\<forall>q' d'. walk adj q' d' \<and> hd q' = start \<and> last q' = goal \<longrightarrow> c \<le> d')"
proof -
  from a_star_optimal[OF assms(1,2) zero_heuristic_admissible[OF assms(2)] assms(3-5)]
  obtain p c where z: "a_star adj start goal zero_heuristic = Some (Inr (Some p, Cost c))"
    "walk adj p c" "hd p = start" "last p = goal"
    "\<And>q' d'. walk adj q' d' \<Longrightarrow> hd q' = start \<Longrightarrow> last q' = goal \<Longrightarrow> c \<le> d'"
    by blast
  from a_star_optimal[OF assms(1,2,6,3-5)]
  obtain p' c' where h: "a_star adj start goal heuristic = Some (Inr (Some p', Cost c'))"
    "walk adj p' c'" "hd p' = start" "last p' = goal"
    "\<And>q' d'. walk adj q' d' \<Longrightarrow> hd q' = start \<Longrightarrow> last q' = goal \<Longrightarrow> c' \<le> d'"
    by blast
  from z(5)[OF h(2-4)] h(5)[OF z(2-4)] have "c' = c" by simp
  with z h show ?thesis
    by (auto simp: dijkstra_is_a_star_zero bidirectional_dijkstra_def)
qed

lemma well_formed_weighted_graph: "well_formed weighted_graph"
  by code_simp

lemma walk_weighted_graph: "walk weighted_graph [0, 2, 3] 5"
  by code_simp

theorem optimal_search_costs_witness:
  "well_formed weighted_graph \<and> nonneg_weights weighted_graph \<and>
   walk weighted_graph [0, 2, 3] 5 \<and> admissible weighted_graph 3 zero_heuristic \<and>
   (\<exists>c p p'. dijkstra weighted_graph 0 3 = Some (Inr (Some p, Cost c)) \<and>
      bidirectional_dijkstra weighted_graph 0 3 = Some (Inr (Some p, Cost c)) \<and>
      a_star weighted_graph 0 3 zero_heuristic = Some (Inr (Some p', Cost c)) \<and>
      walk weighted_graph p c \<and> c \<le> 5)"
proof -
  note wf = well_formed_weighted_graph and nn = nonneg_weighted_graph
    and w = walk_weighted_graph
  have adm: "admissible weighted_graph 3 zero_heuristic"
    using nn by (rule zero_heuristic_admissible)
  have ends: "hd [0::int, 2, 3] = 0" "last [0::int, 2, 3] = 3" by simp_all
  from optimal_search_costs[OF wf nn w ends adm]
  obtain c p p' where r: "dijkstra weighted_graph 0 3 = Some (Inr (Some p, Cost c))"
    "bidirectional_dijkstra weighted_graph 0 3 = Some (Inr (Some p, Cost c))"
    "a_star weighted_graph 0 3 zero_heuristic = Some (Inr (Some p', Cost c))"
    "walk weighted_graph p c"
    "\<forall>q' d'. walk weighted_graph q' d' \<and> hd q' = 0 \<and> last q' = 3 \<longrightarrow> c \<le> d'"
    by blast
  from r(5) w ends have "c \<le> 5" by blast
  with wf nn w adm r(1-4) show ?thesis by blast
qed

text \<open>
  C1 as stated fails on a graph with an edge to a node that is no key: in
  \<open>{0: [(1, 1), (2, 5)]}\<close> the edge from 0 to 2 is a path of cost 5, and \<open>dijkstra\<close>
  from 0 to 2 takes node 1 from the heap first and ends with \<open>KeyError\<close> at \<open>adj[1]\<close>.
\<close>

theorem dijkstra_key_error_counterexample:
  "nonneg_weights [(0::int, [(1, 1), (2, 5)])] \<and>
   walk [(0::int, [(1, 1), (2, 5)])] [0, 2] 5 \<and>
   dijkstra [(0::int, [(1, 1), (2, 5)])] 0 2 = Some (Inl KeyError)"
  by code_simp

text \<open>
  The ALT heuristic is no instance of the theorem: on the directed graph of the
  previous subsection it is not admissible, and A* with it returns the cost 5 from
  node 3 to node 2, where the walk \<open>[3, 1, 2]\<close> costs 2.
\<close>

lemma a_star_alt_suboptimal:
  "(case build_tables directed_graph [0] of
      Some (Inr (fwd, bwd)) \<Rightarrow> a_star directed_graph 3 2 (alt_heuristic_factory 2 fwd bwd)
    | _ \<Rightarrow> None) = Some (Inr (Some [3, 2], Cost 5)) \<and>
   walk directed_graph [3, 1, 2] 2 \<and> well_formed directed_graph"
  by code_simp

subsection \<open>Weak components and searches for a goal outside the component of the start\<close>

lemma weakly_connected_rtrancl:
  "weakly_connected adj u v \<longleftrightarrow> (u, v) \<in> (set (wedges adj) \<union> (set (wedges adj))\<inverse>)\<^sup>*"
  unfolding weakly_connected_def by (auto simp: rtrancl_eq_or_trancl)

lemma weakly_connected_refl: "weakly_connected adj u u"
  by (simp add: weakly_connected_def)

lemma weakly_connected_sym: "weakly_connected adj u v \<Longrightarrow> weakly_connected adj v u"
proof -
  have "sym (set (wedges adj) \<union> (set (wedges adj))\<inverse>)" by (auto simp: sym_def)
  then have "sym ((set (wedges adj) \<union> (set (wedges adj))\<inverse>)\<^sup>*)" by (rule sym_rtrancl)
  then show "weakly_connected adj u v \<Longrightarrow> weakly_connected adj v u"
    unfolding weakly_connected_rtrancl by (auto dest: symD)
qed

lemma weakly_connected_trans:
  "weakly_connected adj u v \<Longrightarrow> weakly_connected adj v x \<Longrightarrow> weakly_connected adj u x"
  unfolding weakly_connected_rtrancl by (rule rtrancl_trans)

lemma wedges_iff:
  "(u, v) \<in> set (wedges adj) \<longleftrightarrow> (\<exists>edges w. (u, edges) \<in> set adj \<and> (v, w) \<in> set edges)"
  unfolding wedges_def by force

lemma edge_wedge: "edge adj u v w \<Longrightarrow> (u, v) \<in> set (wedges adj)"
  unfolding wedges_iff by (auto elim!: edgeE dest: map_of_SomeD)

lemma weakly_connected_step:
  "weakly_connected adj s u \<Longrightarrow> (u, v) \<in> set (wedges adj) \<or> (v, u) \<in> set (wedges adj) \<Longrightarrow>
   weakly_connected adj s v"
  unfolding weakly_connected_rtrancl by (auto intro: rtrancl_into_rtrancl)

lemma component_closed:
  assumes "well_formed adj" "s \<in> fst ` set adj"
  shows "closed_region adj {v. weakly_connected adj s v}"
proof -
  have key: "\<exists>edges. map_of adj v = Some edges" if "weakly_connected adj s v" for v
    using that unfolding weakly_connected_rtrancl
  proof (induction rule: rtrancl_induct)
    case base
    from assms(2) show ?case by (rule key_has_edges)
  next
    case (step y z)
    from step(2) consider edges w where "(y, edges) \<in> set adj" "(z, w) \<in> set edges"
      | edges w where "(z, edges) \<in> set adj" "(y, w) \<in> set edges"
      by (auto simp: wedges_iff)
    then show ?case
    proof cases
      case 1
      then have "z \<in> targets adj" unfolding targets_def by force
      then show ?thesis by (rule well_formed_target[OF assms(1)])
    next
      case 2
      then have "z \<in> fst ` set adj" by force
      then show ?thesis by (rule key_has_edges)
    qed
  qed
  show ?thesis
    unfolding closed_region_def
    using key weakly_connected_step edge_wedge by fast
qed

lemma region_edges:
  assumes "closed_region adj R" "node \<in> R"
  obtains edges where "map_of adj node = Some edges" "fst ` set edges \<subseteq> R"
proof -
  from assms obtain edges where e: "map_of adj node = Some edges"
    unfolding closed_region_def by blast
  have "fst ` set edges \<subseteq> R"
  proof
    fix v assume "v \<in> fst ` set edges"
    then obtain w where "(v, w) \<in> set edges" by auto
    with e have "edge adj node v w" by (rule edgeI)
    with assms show "v \<in> R" unfolding closed_region_def by blast
  qed
  with e that show ?thesis by blast
qed

lemma bfs_loop_unreachable:
  "closed_region adj R \<Longrightarrow> goal \<notin> R \<Longrightarrow> fst ` set queue \<subseteq> R \<Longrightarrow>
   bfs_loop adj goal visited queue = Inr (None, Infinity)"
proof (induction adj goal visited queue rule: bfs_loop.induct)
  case (1 adj goal visited)
  show ?case by simp
next
  case (2 adj goal visited node path queue)
  from "2.prems" have nR: "node \<in> R" and qR: "fst ` set queue \<subseteq> R" by auto
  with "2.prems"(2) have ng: "node \<noteq> goal" by auto
  from region_edges[OF "2.prems"(1) nR]
  obtain edges where e: "map_of adj node = Some edges" "fst ` set edges \<subseteq> R" .
  show ?case
  proof (cases "node \<in> visited")
    case True
    with "2.IH"(2)[OF ng _ "2.prems"(1,2) qR] ng show ?thesis by simp
  next
    case False
    let ?new = "map (\<lambda>(neighbor, w). (neighbor, path @ [neighbor]))
                  (filter (\<lambda>(neighbor, w). neighbor \<notin> insert node visited) edges)"
    have "fst ` set (queue @ ?new) \<subseteq> R" using qR e(2) by force
    from "2.IH"(1)[OF ng False e(1) "2.prems"(1,2) this] ng False e(1)
    show ?thesis by simp
  qed
qed

lemma dfs_loop_unreachable:
  "closed_region adj R \<Longrightarrow> goal \<notin> R \<Longrightarrow> fst ` set stack \<subseteq> R \<Longrightarrow>
   dfs_loop adj goal visited stack = Inr (None, Infinity)"
proof (induction adj goal visited stack rule: dfs_loop.induct)
  case (1 adj goal visited)
  show ?case by simp
next
  case (2 adj goal visited node path stack)
  from "2.prems" have nR: "node \<in> R" and qR: "fst ` set stack \<subseteq> R" by auto
  with "2.prems"(2) have ng: "node \<noteq> goal" by auto
  from region_edges[OF "2.prems"(1) nR]
  obtain edges where e: "map_of adj node = Some edges" "fst ` set edges \<subseteq> R" .
  show ?case
  proof (cases "node \<in> visited")
    case True
    with "2.IH"(2)[OF ng _ "2.prems"(1,2) qR] ng show ?thesis by simp
  next
    case False
    let ?new = "rev (map (\<lambda>(neighbor, w). (neighbor, path @ [neighbor])) edges)"
    have "fst ` set (?new @ stack) \<subseteq> R" using qR e(2) by force
    from "2.IH"(1)[OF ng False e(1) "2.prems"(1,2) this] ng False e(1)
    show ?thesis by simp
  qed
qed

lemma greedy_push_total:
  assumes "\<forall>(v, w) \<in> set edges. \<exists>x. heuristic v goal = Inr x"
  shows "\<exists>pq'. greedy_push heuristic goal path cost edges pq = Inr pq' \<and>
      (\<lambda>(hv, n, p, c). n) ` set pq' = (\<lambda>(hv, n, p, c). n) ` set pq \<union> fst ` set edges"
  using assms
proof (induction edges arbitrary: pq)
  case Nil
  then show ?case by simp
next
  case (Cons e edges)
  obtain v w where e: "e = (v, w)" by (cases e)
  with Cons.prems obtain x where hv: "heuristic v goal = Inr x" by auto
  from Cons.prems have "\<forall>(v, w) \<in> set edges. \<exists>x. heuristic v goal = Inr x" by simp
  from Cons.IH[OF this, of "heappush pq (x, v, path @ [v], cost + w)"]
  show ?case using hv e by (auto simp: heappush_def)
qed

lemma greedy_loop_unreachable:
  "closed_region adj R \<Longrightarrow> goal \<notin> R \<Longrightarrow> heuristic_total adj goal heuristic \<Longrightarrow>
   (\<lambda>(hv, n, p, c). n) ` set pq \<subseteq> R \<Longrightarrow>
   greedy_loop adj heuristic goal visited pq = Inr (None, Infinity)"
proof (induction adj heuristic goal visited pq rule: greedy_loop.induct)
  case (1 adj heuristic goal visited pq)
  note prems = "1.prems"
  show ?case
  proof (cases "pq = []")
    case True
    then show ?thesis by (subst greedy_loop.simps) simp
  next
    case False
    obtain hv node path cost pq' where pop: "heappop pq = ((hv, node, path, cost), pq')"
      by (metis prod.exhaust)
    from heappop_least[OF False pop]
    have mem: "(hv, node, path, cost) \<in> set pq" and pq': "pq' = remove1 (hv, node, path, cost) pq"
      by simp_all
    from prems(4) mem have nR: "node \<in> R" by force
    with prems(2) have ng: "node \<noteq> goal" by auto
    have sub': "(\<lambda>(hv, n, p, c). n) ` set pq' \<subseteq> R"
      using prems(4) set_remove1_subset[of "(hv, node, path, cost)" pq] unfolding pq' by blast
    show ?thesis
    proof (cases "node \<in> visited")
      case True
      from "1.IH"(2)[OF False pop[symmetric] refl refl refl ng _ prems(1-3) sub'] True
      have "greedy_loop adj heuristic goal visited pq' = Inr (None, Infinity)" by simp
      then show ?thesis using False pop ng True by (subst greedy_loop.simps) simp
    next
      case nv: False
      from region_edges[OF prems(1) nR]
      obtain edges where e: "map_of adj node = Some edges" "fst ` set edges \<subseteq> R" .
      have ht: "\<forall>(v, w) \<in> set edges. \<exists>x. heuristic v goal = Inr x"
      proof clarify
        fix v w assume "(v, w) \<in> set edges"
        with e(1) have "v \<in> targets adj" by (rule edge_target)
        with prems(3) show "\<exists>x. heuristic v goal = Inr x"
          unfolding heuristic_total_def nodes_def by blast
      qed
      from greedy_push_total[of edges heuristic goal path cost pq'] ht
      obtain pq'' where push: "greedy_push heuristic goal path cost edges pq' = Inr pq''"
        and set'': "(\<lambda>(hv, n, p, c). n) ` set pq'' =
            (\<lambda>(hv, n, p, c). n) ` set pq' \<union> fst ` set edges"
        by blast
      have sub'': "(\<lambda>(hv, n, p, c). n) ` set pq'' \<subseteq> R" unfolding set'' using sub' e(2) by blast
      from "1.IH"(1)[OF False pop[symmetric] refl refl refl ng nv e(1) push prems(1-3) sub'']
      have "greedy_loop adj heuristic goal (insert node visited) pq'' = Inr (None, Infinity)" .
      then show ?thesis using False pop ng nv e(1) push by (subst greedy_loop.simps) simp
    qed
  qed
qed

lemma bidirectional_for_region:
  "dom mine \<subseteq> R \<Longrightarrow> set q \<subseteq> dom mine \<Longrightarrow> node \<in> dom mine \<Longrightarrow> fst ` set edges \<subseteq> R \<Longrightarrow>
   dom other \<inter> R = {} \<Longrightarrow>
   \<exists>mine' q'. bidirectional_for mine other node edges q = Continue (mine', q') \<and>
     dom mine' \<subseteq> R \<and> set q' \<subseteq> dom mine'"
proof (induction mine other node edges q rule: bidirectional_for.induct)
  case (1 mine other node q)
  then show ?case by simp
next
  case (2 mine other node neighbor w edges q)
  from "2.prems"(3) obtain node_path where np: "mine node = Some node_path" by auto
  from "2.prems"(4) have nb: "neighbor \<in> R" and rest: "fst ` set edges \<subseteq> R" by auto
  with "2.prems"(5) have on: "other neighbor = None" by auto
  show ?case
  proof (cases "mine neighbor = None")
    case True
    let ?m = "mine(neighbor \<mapsto> node_path @ [neighbor])"
    have "dom ?m \<subseteq> R" "set (q @ [neighbor]) \<subseteq> dom ?m" "node \<in> dom ?m"
      using "2.prems"(1-3) nb by auto
    from "2.IH"(1)[OF True np on this rest "2.prems"(5)]
    obtain mine' q' where r: "bidirectional_for ?m other node edges (q @ [neighbor]) = Continue (mine', q')"
      "dom mine' \<subseteq> R" "set q' \<subseteq> dom mine'"
      by blast
    have "bidirectional_for mine other node ((neighbor, w) # edges) q = Continue (mine', q')"
      using True np on by (simp add: r(1))
    with r(2,3) show ?thesis by blast
  next
    case False
    from "2.IH"(2)[OF False "2.prems"(1-3) rest "2.prems"(5)]
    obtain mine' q' where r: "bidirectional_for mine other node edges q = Continue (mine', q')"
      "dom mine' \<subseteq> R" "set q' \<subseteq> dom mine'"
      by blast
    from False obtain y where "mine neighbor = Some y" by auto
    then have "bidirectional_for mine other node ((neighbor, w) # edges) q = Continue (mine', q')"
      by (simp add: r(1))
    with r(2,3) show ?thesis by blast
  qed
qed

lemma bidirectional_loop_unreachable:
  "closed_region adj Rf \<Longrightarrow> closed_region adj Rb \<Longrightarrow> Rf \<inter> Rb = {} \<Longrightarrow>
   dom front \<subseteq> Rf \<Longrightarrow> dom bk \<subseteq> Rb \<Longrightarrow> set q_front \<subseteq> dom front \<Longrightarrow> set q_back \<subseteq> dom bk \<Longrightarrow>
   bidirectional_loop adj front bk q_front q_back = Inr (None, Infinity)"
proof (induction adj front bk q_front q_back rule: bidirectional_loop.induct)
  case (1 adj front bk q_back)
  show ?case by simp
next
  case (2 adj front bk node q_front)
  show ?case by simp
next
  case (3 adj front bk node q_front node' q_back)
  note prems = "3.prems"
  from prems have nf: "node \<in> dom front" "node \<in> Rf" and qf: "set q_front \<subseteq> dom front"
    and nb: "node' \<in> dom bk" "node' \<in> Rb" and qb: "set q_back \<subseteq> dom bk"
    by auto
  from region_edges[OF prems(1) nf(2)]
  obtain edges where e: "map_of adj node = Some edges" "fst ` set edges \<subseteq> Rf" .
  have "dom bk \<inter> Rf = {}" using prems(3,5) by blast
  from bidirectional_for_region[OF prems(4) qf nf(1) e(2) this]
  obtain front' q_front' where f: "bidirectional_for front bk node edges q_front = Continue (front', q_front')"
    "dom front' \<subseteq> Rf" "set q_front' \<subseteq> dom front'"
    by blast
  from region_edges[OF prems(2) nb(2)]
  obtain edges' where e': "map_of adj node' = Some edges'" "fst ` set edges' \<subseteq> Rb" .
  have "dom front' \<inter> Rb = {}" using prems(3) f(2) by blast
  from bidirectional_for_region[OF prems(5) qb nb(1) e'(2) this]
  obtain bk' q_back' where b: "bidirectional_for bk front' node' edges' q_back = Continue (bk', q_back')"
    "dom bk' \<subseteq> Rb" "set q_back' \<subseteq> dom bk'"
    by blast
  from "3.IH"[OF e(1) f(1) refl e'(1) b(1) refl prems(1-3) f(2) b(2) f(3) b(3)]
  show ?case using e(1) f(1) e'(1) b(1) by simp
qed

lemma relax_edges_inv:
  "well_formed adj \<Longrightarrow> bf_inv adj start dists \<Longrightarrow> u \<in> fst ` set adj \<Longrightarrow>
   \<forall>(v, w) \<in> set edges. (u, v) \<in> set (wedges adj) \<Longrightarrow>
   \<exists>dists' prev' updated'. relax_edges u edges (dists, prev, updated) = Inr (dists', prev', updated') \<and>
     bf_inv adj start dists'"
proof (induction u edges "(dists, prev, updated)" arbitrary: dists prev updated
    rule: relax_edges.induct)
  case (1 u)
  then show ?case by simp
next
  case (2 u v w edges dists prev updated)
  note prems = "2.prems"
  from prems(2,3) obtain du where du: "dists u = Some du" unfolding bf_inv_def by blast
  from prems(4) have uv: "(u, v) \<in> set (wedges adj)"
    and rest: "\<forall>(v, w) \<in> set edges. (u, v) \<in> set (wedges adj)" by auto
  from uv have "v \<in> targets adj" unfolding wedges_iff targets_def by force
  from well_formed_target[OF prems(1) this] have "v \<in> fst ` set adj"
    by (auto dest!: map_of_SomeD intro: rev_image_eqI)
  with prems(2) obtain dv where dv: "dists v = Some dv" unfolding bf_inv_def by blast
  show ?case
  proof (cases "cost_less (cost_add du w) dv")
    case True
    then obtain c where c: "du = Cost c" by (cases du) auto
    with du prems(2) have "weakly_connected adj start u" unfolding bf_inv_def by blast
    with uv have "weakly_connected adj start v" by (auto intro: weakly_connected_step)
    with prems(2) have inv': "bf_inv adj start (dists(v \<mapsto> cost_add du w))"
      unfolding bf_inv_def by auto
    from "2.hyps"(1)[OF du dv True prems(1) inv' prems(3) rest]
    obtain dists' prev' updated' where
      r: "relax_edges u edges (dists(v \<mapsto> cost_add du w), prev(v \<mapsto> u), True)
            = Inr (dists', prev', updated')" "bf_inv adj start dists'"
      by blast
    have "relax_edges u ((v, w) # edges) (dists, prev, updated) = Inr (dists', prev', updated')"
      using du dv True by (simp add: r(1))
    with r(2) show ?thesis by blast
  next
    case False
    from "2.hyps"(2)[OF du dv False prems(1,2,3) rest]
    obtain dists' prev' updated' where
      r: "relax_edges u edges (dists, prev, updated) = Inr (dists', prev', updated')"
        "bf_inv adj start dists'"
      by blast
    have "relax_edges u ((v, w) # edges) (dists, prev, updated) = Inr (dists', prev', updated')"
      using du dv False by (simp add: r(1))
    with r(2) show ?thesis by blast
  qed
qed

lemma relax_all_inv:
  assumes "well_formed adj"
  shows "bf_inv adj start dists \<Longrightarrow> set items \<subseteq> set adj \<Longrightarrow>
   \<exists>dists' prev' updated'. relax_all items (dists, prev, updated) = Inr (dists', prev', updated') \<and>
     bf_inv adj start dists'"
proof (induction items arbitrary: dists prev updated)
  case Nil
  then show ?case by simp
next
  case (Cons item items)
  obtain u edges where item: "item = (u, edges)" by (cases item)
  with Cons.prems(2) have mem: "(u, edges) \<in> set adj" and rest: "set items \<subseteq> set adj" by auto
  from mem have uK: "u \<in> fst ` set adj" by force
  from mem have "\<forall>(v, w) \<in> set edges. (u, v) \<in> set (wedges adj)"
    unfolding wedges_iff by blast
  from relax_edges_inv[OF assms Cons.prems(1) uK this, of prev updated]
  obtain d1 p1 u1 where r1: "relax_edges u edges (dists, prev, updated) = Inr (d1, p1, u1)"
    "bf_inv adj start d1"
    by blast
  from Cons.IH[OF r1(2) rest, of p1 u1]
  obtain dists' prev' updated' where r2: "relax_all items (d1, p1, u1) = Inr (dists', prev', updated')"
    "bf_inv adj start dists'"
    by blast
  have "relax_all (item # items) (dists, prev, updated) = Inr (dists', prev', updated')"
    by (simp add: item r1(1) r2(1))
  with r2(2) show ?case by blast
qed

lemma bellman_ford_passes_inv:
  assumes "well_formed adj"
  shows "bf_inv adj start dists \<Longrightarrow>
   \<exists>dists' prev'. bellman_ford_passes n adj (dists, prev) = Inr (dists', prev') \<and>
     bf_inv adj start dists'"
proof (induction n arbitrary: dists prev)
  case 0
  then show ?case by simp
next
  case (Suc n)
  from relax_all_inv[OF assms Suc.prems subset_refl, of prev False]
  obtain d1 p1 u1 where r1: "relax_all adj (dists, prev, False) = Inr (d1, p1, u1)"
    "bf_inv adj start d1"
    by blast
  show ?case
  proof (cases u1)
    case False
    with r1 show ?thesis by simp
  next
    case True
    from Suc.IH[OF r1(2), of p1]
    obtain dists' prev' where "bellman_ford_passes n adj (d1, p1) = Inr (dists', prev')"
      "bf_inv adj start dists'"
      by blast
    with r1(1) True show ?thesis by simp
  qed
qed

lemma map_of_infinity:
  "map_of (map (\<lambda>(u, edges). (u, Infinity)) adj) v =
     (if v \<in> fst ` set adj then Some Infinity else None)"
  by (induction adj) auto

lemma bellman_ford_unreachable:
  assumes "well_formed adj" "goal \<in> fst ` set adj" "\<not> weakly_connected adj start goal"
  shows "bellman_ford adj start goal = Some (Inr (None, Infinity))"
proof -
  let ?d0 = "(map_of (map (\<lambda>(u, edges). (u, Infinity)) adj))(start \<mapsto> Cost 0)"
  have "bf_inv adj start ?d0"
    unfolding bf_inv_def
    by (auto simp: map_of_infinity weakly_connected_refl dom_def split: if_splits
             intro: rev_image_eqI)
  from bellman_ford_passes_inv[OF assms(1) this, of "length adj - 1" Map.empty]
  obtain dists prev where r: "bellman_ford_passes (length adj - 1) adj (?d0, Map.empty) = Inr (dists, prev)"
    "bf_inv adj start dists"
    by blast
  from r(2) assms(2) obtain dg where dg: "dists goal = Some dg" unfolding bf_inv_def by blast
  with r(2) assms(3) have "dg = Infinity" unfolding bf_inv_def by (cases dg) auto
  with dg r(1) show ?thesis by (simp add: bellman_ford_def)
qed

lemma adj_get_dict_append:
  "adj_get (dict_append d k v) x = (if x = k then adj_get d x @ [v] else adj_get d x)"
  by (induction d) (auto simp: adj_get_def)

lemma und_edges_fold:
  assumes "\<forall>(v, w) \<in> set edges. weakly_connected adj u v"
  shows "\<forall>x y. y \<in> set (adj_get und x) \<longrightarrow> weakly_connected adj x y \<Longrightarrow>
    \<forall>x y. y \<in> set (adj_get (fold (\<lambda>(v, w) und. dict_append (dict_append und u v) v u) edges und) x)
      \<longrightarrow> weakly_connected adj x y"
  using assms
proof (induction edges arbitrary: und)
  case Nil
  then show ?case by simp
next
  case (Cons e edges)
  obtain v w where e: "e = (v, w)" by (cases e)
  with Cons.prems(2) have uv: "weakly_connected adj u v"
    and rest: "\<forall>(v, w) \<in> set edges. weakly_connected adj u v" by auto
  from uv have vu: "weakly_connected adj v u" by (rule weakly_connected_sym)
  have "\<forall>x y. y \<in> set (adj_get (dict_append (dict_append und u v) v u) x) \<longrightarrow>
      weakly_connected adj x y"
    using Cons.prems(1) uv vu by (auto simp: adj_get_dict_append split: if_splits)
  from Cons.IH[OF this rest] show ?case by (simp add: e)
qed

lemma build_und_edges:
  assumes "y \<in> set (adj_get (build_und adj) x)"
  shows "weakly_connected adj x y"
proof -
  have "\<forall>x y. y \<in> set (adj_get und x) \<longrightarrow> weakly_connected adj x y \<Longrightarrow> set items \<subseteq> set adj \<Longrightarrow>
    \<forall>x y. y \<in> set (adj_get (fold (\<lambda>(u, edges) und.
            fold (\<lambda>(v, w) und. dict_append (dict_append und u v) v u) edges und) items und) x)
      \<longrightarrow> weakly_connected adj x y" for items und
  proof (induction items arbitrary: und)
    case Nil
    then show ?case by simp
  next
    case (Cons item items)
    obtain u edges where item: "item = (u, edges)" by (cases item)
    with Cons.prems(2) have mem: "(u, edges) \<in> set adj" and rest: "set items \<subseteq> set adj" by auto
    have "\<forall>(v, w) \<in> set edges. weakly_connected adj u v"
    proof clarify
      fix v w assume "(v, w) \<in> set edges"
      with mem have "(u, v) \<in> set (wedges adj)" unfolding wedges_iff by blast
      with weakly_connected_refl[of adj u] show "weakly_connected adj u v"
        by (auto intro: weakly_connected_step)
    qed
    from Cons.IH[OF und_edges_fold[OF this Cons.prems(1)] rest]
    show ?case by (simp add: item)
  qed
  from this[where items = adj and und = "[]"]
  have "\<forall>x y. y \<in> set (adj_get (build_und adj) x) \<longrightarrow> weakly_connected adj x y"
    unfolding build_und_def by (simp add: adj_get_def)
  with assms show ?thesis by blast
qed

lemma flood_for_inv:
  "comp_inv adj cid cmp \<Longrightarrow> \<forall>z \<in> set q. (z, cid) \<in> set cmp \<Longrightarrow> (x, cid) \<in> set cmp \<Longrightarrow>
   \<forall>y \<in> set ys. weakly_connected adj x y \<Longrightarrow> flood_for cid ys (cmp, q) = (cmp', q') \<Longrightarrow>
   comp_inv adj cid cmp' \<and> (\<forall>z \<in> set q'. (z, cid) \<in> set cmp') \<and> set cmp \<subseteq> set cmp'"
proof (induction cid ys "(cmp, q)" arbitrary: cmp q rule: flood_for.induct)
  case (1 cid cmp q)
  then show ?case by simp
next
  case (2 cid y ys cmp q)
  note prems = "2.prems"
  from prems(4) have xy: "weakly_connected adj x y"
    and rest: "\<forall>y \<in> set ys. weakly_connected adj x y" by auto
  show ?case
  proof (cases "map_of cmp y = None")
    case False
    with prems(5) have "flood_for cid ys (cmp, q) = (cmp', q')" by simp
    from "2.hyps"(2)[OF False prems(1-3) rest this] show ?thesis .
  next
    case True
    then have fresh: "y \<notin> fst ` set cmp" by (simp add: map_of_eq_None_iff)
    let ?cmp = "cmp @ [(y, cid)]"
    have conn: "weakly_connected adj u v"
      if "(u, c) \<in> set ?cmp" "(v, c) \<in> set ?cmp" for u v c
    proof -
      have old: "weakly_connected adj a b" if "(a, c') \<in> set cmp" "(b, c') \<in> set cmp" for a b c'
        using prems(1) that unfolding comp_inv_def by blast
      have toy: "weakly_connected adj a y" if "(a, cid) \<in> set cmp" for a
        using old[OF that prems(3)] xy by (rule weakly_connected_trans)
      from that consider "(u, c) \<in> set cmp" "(v, c) \<in> set cmp"
        | "u = y" "c = cid" "(v, c) \<in> set cmp" | "v = y" "c = cid" "(u, c) \<in> set cmp"
        | "u = y" "v = y"
        by auto
      then show ?thesis
      proof cases
        case 1 then show ?thesis by (rule old)
      next
        case 2 then show ?thesis by (auto intro: weakly_connected_sym toy)
      next
        case 3 then show ?thesis by (auto intro: toy)
      next
        case 4 then show ?thesis by (simp add: weakly_connected_refl)
      qed
    qed
    have inv': "comp_inv adj cid ?cmp"
      unfolding comp_inv_def
    proof (intro conjI)
      show "distinct (map fst ?cmp)" using prems(1) fresh unfolding comp_inv_def by simp
      show "\<forall>(v, c) \<in> set ?cmp. c \<le> cid" using prems(1) unfolding comp_inv_def by auto
      show "\<forall>u v c. (u, c) \<in> set ?cmp \<and> (v, c) \<in> set ?cmp \<longrightarrow> weakly_connected adj u v"
        using conn by blast
    qed
    have q': "\<forall>z \<in> set (q @ [y]). (z, cid) \<in> set ?cmp" using prems(2) by auto
    have x': "(x, cid) \<in> set ?cmp" using prems(3) by simp
    from prems(5) True have "flood_for cid ys (?cmp, q @ [y]) = (cmp', q')" by simp
    from "2.hyps"(1)[OF True inv' q' x' rest this] show ?thesis by auto
  qed
qed

lemma flood_while_inv:
  "\<forall>x y. y \<in> set (adj_get und x) \<longrightarrow> weakly_connected adj x y \<Longrightarrow> comp_inv adj cid cmp \<Longrightarrow>
   \<forall>z \<in> set q. (z, cid) \<in> set cmp \<Longrightarrow>
   comp_inv adj cid (flood_while und cid cmp q) \<and> set cmp \<subseteq> set (flood_while und cid cmp q)"
proof (induction und cid cmp q rule: flood_while.induct)
  case (1 und cid cmp)
  then show ?case by simp
next
  case (2 und cid cmp x q)
  note prems = "2.prems"
  obtain cmp' q' where fl: "flood_for cid (adj_get und x) (cmp, q) = (cmp', q')"
    by (metis prod.exhaust)
  from prems(3) have x: "(x, cid) \<in> set cmp" and q: "\<forall>z \<in> set q. (z, cid) \<in> set cmp" by auto
  from prems(1) have "\<forall>y \<in> set (adj_get und x). weakly_connected adj x y" by blast
  from flood_for_inv[OF prems(2) q x this fl]
  have r: "comp_inv adj cid cmp'" "\<forall>z \<in> set q'. (z, cid) \<in> set cmp'" "set cmp \<subseteq> set cmp'"
    by auto
  from "2.IH"[OF fl[symmetric] prems(1) r(1,2)] r(3) fl
  show ?case by auto
qed


lemma comp_inv_mono: "comp_inv adj cid cmp \<Longrightarrow> cid \<le> cid' \<Longrightarrow> comp_inv adj cid' cmp"
  unfolding comp_inv_def by fastforce

lemma build_components_fold:
  assumes und: "\<forall>x y. y \<in> set (adj_get und x) \<longrightarrow> weakly_connected adj x y"
  shows "comp_inv adj cid cmp \<Longrightarrow>
    fold (\<lambda>start (cmp, cid).
           if map_of cmp start \<noteq> None then (cmp, cid)
           else (flood_while und (cid + 1) (cmp @ [(start, cid + 1)]) [start], cid + 1))
         ks (cmp, cid) = (cmp', cid') \<Longrightarrow>
    comp_inv adj cid' cmp' \<and> set cmp \<subseteq> set cmp' \<and> set ks \<subseteq> fst ` set cmp'"
proof (induction ks arbitrary: cmp cid)
  case Nil
  then show ?case by simp
next
  case (Cons k ks)
  let ?step = "\<lambda>start (cmp, cid).
           if map_of cmp start \<noteq> None then (cmp, cid)
           else (flood_while und (cid + 1) (cmp @ [(start, cid + 1)]) [start], cid + 1)"
  show ?case
  proof (cases "map_of cmp k = None")
    case False
    with Cons.prems(2) have "fold ?step ks (cmp, cid) = (cmp', cid')" by simp
    from Cons.IH[OF Cons.prems(1) this]
    have r: "comp_inv adj cid' cmp'" "set cmp \<subseteq> set cmp'" "set ks \<subseteq> fst ` set cmp'" by auto
    from False have "k \<in> fst ` set cmp" by (simp add: map_of_eq_None_iff)
    with r show ?thesis by auto
  next
    case True
    then have fresh: "k \<notin> fst ` set cmp" by (simp add: map_of_eq_None_iff)
    let ?cmp = "cmp @ [(k, cid + 1)]"
    have inv1: "comp_inv adj (cid + 1) ?cmp"
      unfolding comp_inv_def
    proof (intro conjI)
      show "distinct (map fst ?cmp)" using Cons.prems(1) fresh unfolding comp_inv_def by simp
      show "\<forall>(v, c) \<in> set ?cmp. c \<le> cid + 1"
        using Cons.prems(1) unfolding comp_inv_def by fastforce
      show "\<forall>u v c. (u, c) \<in> set ?cmp \<and> (v, c) \<in> set ?cmp \<longrightarrow> weakly_connected adj u v"
      proof (intro allI impI, elim conjE)
        fix u v c assume uv: "(u, c) \<in> set ?cmp" "(v, c) \<in> set ?cmp"
        have le: "c' \<le> cid" if "(a, c') \<in> set cmp" for a c'
          using Cons.prems(1) that unfolding comp_inv_def by fastforce
        from uv consider "(u, c) \<in> set cmp" "(v, c) \<in> set cmp" | "u = k" "v = k"
          using le by fastforce
        then show "weakly_connected adj u v"
        proof cases
          case 1
          with Cons.prems(1) show ?thesis unfolding comp_inv_def by blast
        next
          case 2
          then show ?thesis by (simp add: weakly_connected_refl)
        qed
      qed
    qed
    have q1: "\<forall>z \<in> set [k]. (z, cid + 1) \<in> set ?cmp" by simp
    define cmp1 where "cmp1 = flood_while und (cid + 1) ?cmp [k]"
    from flood_while_inv[OF und inv1 q1]
    have f: "comp_inv adj (cid + 1) cmp1" "set ?cmp \<subseteq> set cmp1" unfolding cmp1_def by auto
    from Cons.prems(2) True have "fold ?step ks (cmp1, cid + 1) = (cmp', cid')"
      by (simp add: cmp1_def)
    from Cons.IH[OF f(1) this]
    have r: "comp_inv adj cid' cmp'" "set cmp1 \<subseteq> set cmp'" "set ks \<subseteq> fst ` set cmp'" by auto
    from f(2) r(2) have "(k, cid + 1) \<in> set cmp'" "set cmp \<subseteq> set cmp'" by auto
    then have "k \<in> fst ` set cmp'" "set cmp \<subseteq> set cmp'" by (force, blast)
    with r show ?thesis by auto
  qed
qed

lemma build_weak_components_sound:
  "distinct (map fst (build_weak_components adj)) \<and>
   fst ` set adj \<subseteq> fst ` set (build_weak_components adj) \<and>
   (\<forall>u v c. (u, c) \<in> set (build_weak_components adj) \<and> (v, c) \<in> set (build_weak_components adj)
      \<longrightarrow> weakly_connected adj u v)"
proof -
  let ?step = "\<lambda>start (cmp, cid).
           if map_of cmp start \<noteq> None then (cmp, cid)
           else (flood_while (build_und adj) (cid + 1) (cmp @ [(start, cid + 1)]) [start], cid + 1)"
  obtain cmp' cid' where f: "fold ?step (map fst adj) ([], 0) = (cmp', cid')"
    using surj_pair[of "fold ?step (map fst adj) ([], 0)"] by blast
  have und: "\<forall>x y. y \<in> set (adj_get (build_und adj) x) \<longrightarrow> weakly_connected adj x y"
    by (intro allI impI) (rule build_und_edges)
  have "comp_inv adj 0 []" by (simp add: comp_inv_def)
  from build_components_fold[OF und this f]
  have "comp_inv adj cid' cmp'" "set (map fst adj) \<subseteq> fst ` set cmp'" by auto
  moreover have "build_weak_components adj = cmp'" unfolding build_weak_components_def f by simp
  ultimately show ?thesis unfolding comp_inv_def by auto
qed

lemma reachable_false:
  assumes "s \<in> fst ` set adj" "\<not> weakly_connected adj s g"
    and "weak_components idx = Some (build_weak_components adj)"
  shows "\<not> reachable (Some idx) s g"
proof -
  let ?cmp = "build_weak_components adj"
  note snd = build_weak_components_sound[of adj]
  from snd assms(1) obtain a where a: "(s, a) \<in> set ?cmp" by force
  with snd have ms: "map_of ?cmp s = Some a" by simp
  have "map_of ?cmp g \<noteq> Some a"
  proof
    assume "map_of ?cmp g = Some a"
    then have "(g, a) \<in> set ?cmp" by (rule map_of_SomeD)
    with a snd have "weakly_connected adj s g" by blast
    with assms(2) show False by simp
  qed
  with ms have "map_of ?cmp s \<noteq> map_of ?cmp g" by simp
  moreover from a have "?cmp \<noteq> []" by auto
  moreover have "\<not> index_is_empty idx" using assms(3) by (simp add: index_is_empty_def)
  ultimately show ?thesis using assms(3) by (simp add: reachable_def)
qed

lemma walk_weakly_connected: "walk adj p c \<Longrightarrow> weakly_connected adj (hd p) (last p)"
proof (induction p arbitrary: c)
  case Nil
  then show ?case by simp
next
  case (Cons u p)
  show ?case
  proof (cases p)
    case Nil
    then show ?thesis by (simp add: weakly_connected_refl)
  next
    case (Cons v p')
    with Cons.prems obtain w where w: "edge adj u v w" "walk adj (v # p') (c - w)"
      by (auto simp: walk_Cons_iff)
    from Cons.IH[OF w(2)[folded Cons]] Cons have "weakly_connected adj v (last p)" by simp
    moreover from w(1) have "weakly_connected adj u v"
      using weakly_connected_step[OF weakly_connected_refl[of adj u]] edge_wedge by fast
    ultimately show ?thesis using Cons by (auto intro: weakly_connected_trans)
  qed
qed

lemma a_star_unreachable:
  assumes "well_formed adj" "nonneg_weights adj" "heuristic_total adj goal heuristic"
    and "start \<in> fst ` set adj" "\<not> weakly_connected adj start goal"
  shows "a_star adj start goal heuristic = Some (Inr (None, Infinity))"
proof -
  from assms(4) have "start \<in> insert goal (nodes adj)" by (simp add: nodes_def)
  from heuristic_total_value[OF assms(3) this]
  have hs: "heuristic start goal = Inr (h_value heuristic goal start)" .
  let ?pq = "[(h_value heuristic goal start, 0, start, [start])]"
  have ent: "a_star_entries adj start goal heuristic ?pq" by (simp add: a_star_entries_def)
  from a_star_loop_total[OF assms(1-3) _ ent, of Map.empty] assms(4)
  obtain r where r: "a_star_loop adj heuristic goal Map.empty ?pq = Some (Inr r)"
    "sound_result adj start goal r"
    by blast
  have "r = (None, Infinity)"
  proof (rule ccontr)
    assume "r \<noteq> (None, Infinity)"
    with r(2) obtain p g where "walk adj p g" "hd p = start" "last p = goal"
      unfolding sound_result_def by blast
    with walk_weakly_connected[of adj p g] assms(5) show False by simp
  qed
  with r(1) show ?thesis by (simp add: a_star_def hs)
qed

lemma heuristic_total_zero: "heuristic_total adj goal zero_heuristic"
  by (simp add: heuristic_total_def zero_heuristic_def)

lemma not_connected_disconnected_graph: "\<not> weakly_connected disconnected_graph 0 3"
  by code_simp

lemma dijkstra_loop_negative_loop:
  assumes "dijkstra_loop adj goal visited pq = Some y"
  shows "\<not> (adj = negative_loop_graph \<and> goal = 1 \<and>
            (\<exists>c path. pq = [(c, 0, path)] \<and> (\<forall>b. visited 0 = Some b \<longrightarrow> c < b)))"
  using assms
proof (induct rule: dijkstra_loop.raw_induct[rotated 1, consumes 1, case_names step])
  case (step loop adj goal visited pq y)
  show ?case
  proof
    assume a: "adj = negative_loop_graph \<and> goal = 1 \<and>
            (\<exists>c path. pq = [(c, 0, path)] \<and> (\<forall>b. visited 0 = Some b \<longrightarrow> c < b))"
    then obtain c path where pq: "pq = [(c, 0, path)]" and c: "\<forall>b. visited 0 = Some b \<longrightarrow> c < b"
      and adj: "adj = negative_loop_graph" and goal: "goal = 1"
      by blast
    have nskip: "\<not> (case visited 0 of None \<Rightarrow> False | Some b \<Rightarrow> b \<le> c)"
      using c by (cases "visited 0") auto
    from step(2) nskip
    have "loop adj goal (visited(0 \<mapsto> c)) [(c - 1, 0, path @ [0])] = Some y"
      by (simp add: pq adj goal heappop_def negative_loop_graph_def dijkstra_push_def heappush_def)
    from step(1)[OF this] adj goal show False by simp
  qed
qed

lemma dijkstra_negative_loop: "dijkstra negative_loop_graph 0 1 = None"
proof (cases "dijkstra negative_loop_graph 0 1")
  case None
  then show ?thesis .
next
  case (Some y)
  then have "dijkstra_loop negative_loop_graph 1 Map.empty [(0, 0, [0])] = Some y"
    by (simp add: dijkstra_def)
  from dijkstra_loop_negative_loop[OF this] show ?thesis by simp
qed

text \<open>
  C7, as the code has it. Take a graph in which every node an edge points to is a
  key, and two keys \<open>start\<close> and \<open>goal\<close> in different weak components. Then \<open>bfs\<close>,
  \<open>dfs\<close>, \<open>bidirectional_bfs\<close> and \<open>bellman_ford\<close> return \<open>(None, inf)\<close>; so does
  \<open>greedy_best\<close> with a heuristic that raises on no node of the graph; on
  non-negative weights so do \<open>dijkstra\<close>, \<open>bidirectional_dijkstra\<close> and (with such a
  heuristic) \<open>a_star\<close>; and the reachability check answers false for an index whose
  component map is the one \<open>_build_weak_components\<close> builds for the graph.
\<close>

theorem unreachable_goal:
  assumes "well_formed adj" "start \<in> fst ` set adj" "goal \<in> fst ` set adj"
    and "\<not> weakly_connected adj start goal"
  shows "bfs adj start goal = Inr (None, Infinity) \<and>
     dfs adj start goal = Inr (None, Infinity) \<and>
     bidirectional_bfs adj start goal = Inr (None, Infinity) \<and>
     bellman_ford adj start goal = Some (Inr (None, Infinity)) \<and>
     (heuristic_total adj goal heuristic \<longrightarrow>
        greedy_best adj start goal heuristic = Inr (None, Infinity)) \<and>
     (nonneg_weights adj \<longrightarrow>
        dijkstra adj start goal = Some (Inr (None, Infinity)) \<and>
        bidirectional_dijkstra adj start goal = Some (Inr (None, Infinity)) \<and>
        (heuristic_total adj goal heuristic \<longrightarrow>
           a_star adj start goal heuristic = Some (Inr (None, Infinity)))) \<and>
     (weak_components idx = Some (build_weak_components adj) \<longrightarrow>
        \<not> reachable (Some idx) start goal)"
proof -
  let ?Rs = "{v. weakly_connected adj start v}" and ?Rg = "{v. weakly_connected adj goal v}"
  have cs: "closed_region adj ?Rs" and cg: "closed_region adj ?Rg"
    using assms(1-3) by (auto intro: component_closed)
  have gs: "goal \<notin> ?Rs" using assms(4) by simp
  have sR: "start \<in> ?Rs" and gR: "goal \<in> ?Rg" by (simp_all add: weakly_connected_refl)
  have disj: "?Rs \<inter> ?Rg = {}"
  proof (rule ccontr)
    assume "?Rs \<inter> ?Rg \<noteq> {}"
    then obtain v where "weakly_connected adj start v" "weakly_connected adj goal v" by auto
    then have "weakly_connected adj start goal"
      by (auto intro: weakly_connected_trans weakly_connected_sym)
    with assms(4) show False by simp
  qed
  have ne: "start \<noteq> goal" using assms(4) by (auto simp: weakly_connected_refl)
  have "bfs adj start goal = Inr (None, Infinity)"
    unfolding bfs_def using cs gs sR by (intro bfs_loop_unreachable) auto
  moreover have "dfs adj start goal = Inr (None, Infinity)"
    unfolding dfs_def using cs gs sR by (intro dfs_loop_unreachable) auto
  moreover have "bidirectional_bfs adj start goal = Inr (None, Infinity)"
  proof -
    have "bidirectional_loop adj [start \<mapsto> [start]] [goal \<mapsto> [goal]] [start] [goal]
        = Inr (None, Infinity)"
      using cs cg disj sR gR by (intro bidirectional_loop_unreachable) auto
    with ne show ?thesis by (simp only: bidirectional_bfs_def if_False)
  qed
  moreover have "bellman_ford adj start goal = Some (Inr (None, Infinity))"
    using assms(1,3,4) by (rule bellman_ford_unreachable)
  moreover have "greedy_best adj start goal heuristic = Inr (None, Infinity)"
    if ht: "heuristic_total adj goal heuristic"
  proof -
    from assms(2) have "start \<in> insert goal (nodes adj)" by (simp add: nodes_def)
    from heuristic_total_value[OF ht this]
    have hs: "heuristic start goal = Inr (h_value heuristic goal start)" .
    have "greedy_loop adj heuristic goal {} [(h_value heuristic goal start, start, [start], 0)]
        = Inr (None, Infinity)"
      using cs gs ht sR by (intro greedy_loop_unreachable) auto
    then show ?thesis by (simp add: greedy_best_def hs)
  qed
  moreover have "a_star adj start goal h = Some (Inr (None, Infinity))"
    if "nonneg_weights adj" "heuristic_total adj goal h" for h
    using assms(1) that assms(2,4) by (rule a_star_unreachable)
  moreover have "\<not> reachable (Some idx) start goal"
    if "weak_components idx = Some (build_weak_components adj)"
    using assms(2,4) that by (rule reachable_false)
  ultimately show ?thesis
    using heuristic_total_zero[of adj goal]
    by (simp add: dijkstra_is_a_star_zero bidirectional_dijkstra_def)
qed

lemma well_formed_disconnected_graph:
  "well_formed disconnected_graph \<and> nonneg_weights disconnected_graph"
  by code_simp

theorem unreachable_goal_witness:
  "well_formed disconnected_graph \<and> nonneg_weights disconnected_graph \<and>
   \<not> weakly_connected disconnected_graph 0 3 \<and>
   heuristic_total disconnected_graph 3 zero_heuristic \<and>
   bfs disconnected_graph 0 3 = Inr (None, Infinity) \<and>
   dfs disconnected_graph 0 3 = Inr (None, Infinity) \<and>
   bidirectional_bfs disconnected_graph 0 3 = Inr (None, Infinity) \<and>
   bellman_ford disconnected_graph 0 3 = Some (Inr (None, Infinity)) \<and>
   greedy_best disconnected_graph 0 3 zero_heuristic = Inr (None, Infinity) \<and>
   dijkstra disconnected_graph 0 3 = Some (Inr (None, Infinity)) \<and>
   bidirectional_dijkstra disconnected_graph 0 3 = Some (Inr (None, Infinity)) \<and>
   a_star disconnected_graph 0 3 zero_heuristic = Some (Inr (None, Infinity)) \<and>
   \<not> reachable (Some (empty_index\<lparr>weak_components :=
          Some (build_weak_components disconnected_graph)\<rparr>)) 0 3"
proof -
  have keys: "(0::int) \<in> fst ` set disconnected_graph" "(3::int) \<in> fst ` set disconnected_graph"
    by (simp_all add: disconnected_graph_def)
  from unreachable_goal[OF conjunct1[OF well_formed_disconnected_graph] keys
      not_connected_disconnected_graph,
      of zero_heuristic
        "empty_index\<lparr>weak_components := Some (build_weak_components disconnected_graph)\<rparr>"]
    well_formed_disconnected_graph not_connected_disconnected_graph
    heuristic_total_zero[of disconnected_graph 3]
  show ?thesis by simp
qed

text \<open>
  C7 as stated fails in two ways. In \<open>{0: [(1, 1)], 2: []}\<close> the nodes 0 and 2 lie in
  different weak components and \<open>bfs\<close> ends with \<open>KeyError\<close> at \<open>adj[1]\<close>. In
  \<open>{0: [(0, -1)], 1: []}\<close>, where every edge target is a key, \<open>dijkstra\<close> from 0 to 1
  never returns: each pass around the loop of weight -1 improves the cost of node 0,
  so it is expanded again.
\<close>

theorem unreachable_goal_counterexample:
  "\<not> weakly_connected [(0::int, [(1, 1)]), (2, [])] 0 2 \<and>
   bfs [(0::int, [(1, 1)]), (2, [])] 0 2 = Inl KeyError \<and>
   well_formed negative_loop_graph \<and> \<not> weakly_connected negative_loop_graph 0 1 \<and>
   dijkstra negative_loop_graph 0 1 = None"
proof -
  have "\<not> weakly_connected [(0::int, [(1, 1)]), (2, [])] 0 2 \<and>
   bfs [(0::int, [(1, 1)]), (2, [])] 0 2 = Inl KeyError \<and>
   well_formed negative_loop_graph \<and> \<not> weakly_connected negative_loop_graph 0 1"
    by code_simp
  with dijkstra_negative_loop show ?thesis by simp
qed

end
